theory Spec2Isabelle
  imports Complex_Main "HOL-Library.Multiset"
begin

section \<open>Errors\<close>

text \<open>The Python exceptions that the modelled functions can raise.\<close>

datatype py_error =
  KeyError | IndexError | TypeError | ValueError | OverflowError | OSError | JSONDecodeError

section \<open>Map and graph store (path\_planner.py)\<close>

text \<open>
  What \<open>json.load\<close> returns: \<open>None\<close>, a \<open>bool\<close>, an \<open>int\<close>, a \<open>float\<close>, a \<open>str\<close>, a \<open>list\<close> or a
  \<open>dict\<close> with string keys (an association list with distinct keys). Floats are taken as
  exact reals, here and for every cost and coordinate.
\<close>

datatype json =
  JNull | JBool bool | JInt int | JNum real | JStr string
| JList "json list" | JObj "(string \<times> json) list"

text \<open>
  The map file as \<open>_load_map\<close> meets it: \<open>open\<close> fails, \<open>json.load\<close> fails, or the file
  parses to a value.
\<close>

datatype map_file = Unreadable | Malformed | Parsed json

text \<open>
  \<open>int(s)\<close> and \<open>float(s)\<close> on a string are Python's own parsers; they are parameters of
  the model, \<open>None\<close> standing for the \<open>ValueError\<close> of a string they do not accept.
\<close>

record builtins =
  str_to_int :: "string \<Rightarrow> int option"
  str_to_float :: "string \<Rightarrow> real option"

record planner =
  nodes :: "int \<rightharpoonup> real \<times> real"
  graph :: "int \<rightharpoonup> (int \<times> real) list"

definition get_default :: "'a option \<Rightarrow> 'a \<Rightarrow> 'a" where
  "get_default v d = (case v of None \<Rightarrow> d | Some x \<Rightarrow> x)"

text \<open>\<open>int(v)\<close>: a float is truncated towards zero, \<open>None\<close>, a list or a dict is a TypeError.\<close>

fun py_int :: "builtins \<Rightarrow> json \<Rightarrow> py_error + int" where
  "py_int bi (JInt i) = Inr i"
| "py_int bi (JBool b) = Inr (if b then 1 else 0)"
| "py_int bi (JNum r) = Inr (if 0 \<le> r then \<lfloor>r\<rfloor> else \<lceil>r\<rceil>)"
| "py_int bi (JStr s) = (case str_to_int bi s of None \<Rightarrow> Inl ValueError | Some i \<Rightarrow> Inr i)"
| "py_int bi JNull = Inl TypeError"
| "py_int bi (JList xs) = Inl TypeError"
| "py_int bi (JObj kvs) = Inl TypeError"

text \<open>
  \<open>float(v)\<close>: an int that rounds to \<open>2 ^ 1024\<close> or beyond, that is, of magnitude at least
  \<open>2 ^ 1024 - 2 ^ 970\<close>, is an OverflowError.
\<close>

fun py_float :: "builtins \<Rightarrow> json \<Rightarrow> py_error + real" where
  "py_float bi (JInt i) =
     (if \<bar>i\<bar> < 2 ^ 1024 - 2 ^ 970 then Inr (real_of_int i) else Inl OverflowError)"
| "py_float bi (JBool b) = Inr (if b then 1 else 0)"
| "py_float bi (JNum r) = Inr r"
| "py_float bi (JStr s) = (case str_to_float bi s of None \<Rightarrow> Inl ValueError | Some r \<Rightarrow> Inr r)"
| "py_float bi JNull = Inl TypeError"
| "py_float bi (JList xs) = Inl TypeError"
| "py_float bi (JObj kvs) = Inl TypeError"

text \<open>\<open>v[key]\<close> with a string key: a KeyError on a dict without the key, a TypeError on
  anything that is not a dict.\<close>

fun subscript :: "json \<Rightarrow> string \<Rightarrow> py_error + json" where
  "subscript (JObj kvs) key = (case map_of kvs key of None \<Rightarrow> Inl KeyError | Some v \<Rightarrow> Inr v)"
| "subscript v key = Inl TypeError"

text \<open>\<open>for x in v\<close>: the elements of a list, the keys of a dict, the characters of a string;
  a TypeError on anything else.\<close>

fun iterate :: "json \<Rightarrow> py_error + json list" where
  "iterate (JList xs) = Inr xs"
| "iterate (JObj kvs) = Inr (map (\<lambda>kv. JStr (fst kv)) kvs)"
| "iterate (JStr s) = Inr (map (\<lambda>c. JStr [c]) s)"
| "iterate v = Inl TypeError"

definition source_entries :: "json \<Rightarrow> string \<Rightarrow> py_error + json list" where
  "source_entries data key = (case subscript data key of Inl err \<Rightarrow> Inl err | Inr v \<Rightarrow> iterate v)"

text \<open>
  One item of the comprehension
  \<open>{int(n["id"]): (float(n.get("x", 0.0)), float(n.get("y", 0.0))) for n in data["nodes"]}\<close>:
  the key is evaluated before the value. \<open>n.get\<close> is reached only when \<open>n["id"]\<close> has
  succeeded, that is, on a dict.
\<close>

definition load_node :: "builtins \<Rightarrow> json \<Rightarrow> py_error + int \<times> real \<times> real" where
  "load_node bi n =
     (case subscript n ''id'' of
        Inl err \<Rightarrow> Inl err
      | Inr v \<Rightarrow>
         (case py_int bi v of
            Inl err \<Rightarrow> Inl err
          | Inr i \<Rightarrow>
             (case n of
                JObj kvs \<Rightarrow>
                  (case py_float bi (get_default (map_of kvs ''x'') (JNum 0)) of
                     Inl err \<Rightarrow> Inl err
                   | Inr x \<Rightarrow>
                      (case py_float bi (get_default (map_of kvs ''y'') (JNum 0)) of
                         Inl err \<Rightarrow> Inl err
                       | Inr y \<Rightarrow> Inr (i, x, y)))
              | _ \<Rightarrow> Inl TypeError)))"

fun load_nodes :: "builtins \<Rightarrow> json list \<Rightarrow> (int \<rightharpoonup> real \<times> real) \<Rightarrow> py_error + (int \<rightharpoonup> real \<times> real)" where
  "load_nodes bi [] m = Inr m"
| "load_nodes bi (n # ns) m =
     (case load_node bi n of
        Inl err \<Rightarrow> Inl err
      | Inr (i, xy) \<Rightarrow> load_nodes bi ns (m(i \<mapsto> xy)))"

text \<open>\<open>a, b, c = int(e["from"]), int(e["to"]), float(e.get("cost", 1.0))\<close>, left to right.\<close>

definition load_edge :: "builtins \<Rightarrow> json \<Rightarrow> py_error + int \<times> int \<times> real" where
  "load_edge bi e =
     (case subscript e ''from'' of
        Inl err \<Rightarrow> Inl err
      | Inr va \<Rightarrow>
         (case py_int bi va of
            Inl err \<Rightarrow> Inl err
          | Inr a \<Rightarrow>
             (case subscript e ''to'' of
                Inl err \<Rightarrow> Inl err
              | Inr vb \<Rightarrow>
                 (case py_int bi vb of
                    Inl err \<Rightarrow> Inl err
                  | Inr b \<Rightarrow>
                     (case e of
                        JObj kvs \<Rightarrow>
                          (case py_float bi (get_default (map_of kvs ''cost'') (JNum 1)) of
                             Inl err \<Rightarrow> Inl err
                           | Inr c \<Rightarrow> Inr (a, b, c))
                      | _ \<Rightarrow> Inl TypeError)))))"

text \<open>\<open>for e in data["edges"]: a, b, c = ...; self.graph.setdefault(a, []).append((b, c))\<close>\<close>

fun load_edges :: "builtins \<Rightarrow> json list \<Rightarrow> (int \<rightharpoonup> (int \<times> real) list) \<Rightarrow> py_error + (int \<rightharpoonup> (int \<times> real) list)" where
  "load_edges bi [] g = Inr g"
| "load_edges bi (e # es) g =
     (case load_edge bi e of
        Inl err \<Rightarrow> Inl err
      | Inr (a, b, c) \<Rightarrow> load_edges bi es (g(a \<mapsto> get_default (g a) [] @ [(b, c)])))"

text \<open>
  \<open>_load_map\<close>: the node table is built from \<open>data["nodes"]\<close>, the graph starts with an empty
  adjacency list for every node of the table, and only then is \<open>data["edges"]\<close> read.
\<close>

definition load_map :: "builtins \<Rightarrow> map_file \<Rightarrow> py_error + planner" where
  "load_map bi file =
     (case file of
        Unreadable \<Rightarrow> Inl OSError
      | Malformed \<Rightarrow> Inl JSONDecodeError
      | Parsed data \<Rightarrow>
         (case source_entries data ''nodes'' of
            Inl err \<Rightarrow> Inl err
          | Inr ns \<Rightarrow>
             (case load_nodes bi ns Map.empty of
                Inl err \<Rightarrow> Inl err
              | Inr nd \<Rightarrow>
                 (case source_entries data ''edges'' of
                    Inl err \<Rightarrow> Inl err
                  | Inr es \<Rightarrow>
                     (case load_edges bi es (\<lambda>nid. if nid \<in> dom nd then Some [] else None) of
                        Inl err \<Rightarrow> Inl err
                      | Inr g \<Rightarrow> Inr \<lparr>nodes = nd, graph = g\<rparr>)))))"

text \<open>
  An entry is well formed when it is an object and each of its conversions succeeds:
  \<open>int()\<close> accepts an int, a bool, a float and the strings its parser accepts; \<open>float()\<close>
  accepts a bool, a float, an int within the float range and the strings its parser
  accepts. Nothing here looks at which ids the other entries declare.
\<close>

fun int_ok :: "builtins \<Rightarrow> json \<Rightarrow> bool" where
  "int_ok bi (JInt i) = True"
| "int_ok bi (JBool b) = True"
| "int_ok bi (JNum r) = True"
| "int_ok bi (JStr s) = (str_to_int bi s \<noteq> None)"
| "int_ok bi v = False"

fun float_ok :: "builtins \<Rightarrow> json \<Rightarrow> bool" where
  "float_ok bi (JInt i) = (\<bar>i\<bar> < 2 ^ 1024 - 2 ^ 970)"
| "float_ok bi (JBool b) = True"
| "float_ok bi (JNum r) = True"
| "float_ok bi (JStr s) = (str_to_float bi s \<noteq> None)"
| "float_ok bi v = False"

fun has_int :: "builtins \<Rightarrow> (string \<times> json) list \<Rightarrow> string \<Rightarrow> bool" where
  "has_int bi kvs key = (case map_of kvs key of None \<Rightarrow> False | Some v \<Rightarrow> int_ok bi v)"

fun node_entry_ok :: "builtins \<Rightarrow> json \<Rightarrow> bool" where
  "node_entry_ok bi (JObj kvs) =
     (has_int bi kvs ''id'' \<and> float_ok bi (get_default (map_of kvs ''x'') (JNum 0)) \<and>
      float_ok bi (get_default (map_of kvs ''y'') (JNum 0)))"
| "node_entry_ok bi v = False"

fun edge_entry_ok :: "builtins \<Rightarrow> json \<Rightarrow> bool" where
  "edge_entry_ok bi (JObj kvs) =
     (has_int bi kvs ''from'' \<and> has_int bi kvs ''to'' \<and>
      float_ok bi (get_default (map_of kvs ''cost'') (JNum 1)))"
| "edge_entry_ok bi v = False"

definition heuristic :: "planner \<Rightarrow> int \<Rightarrow> int \<Rightarrow> real" where
  "heuristic pl a b =
     (case get_default (nodes pl a) (0, 0) of (ax, ay) \<Rightarrow>
      case get_default (nodes pl b) (0, 0) of (bx, by) \<Rightarrow>
        sqrt ((ax - bx)\<^sup>2 + (ay - by)\<^sup>2))"

definition is_valid_node :: "planner \<Rightarrow> int \<Rightarrow> bool" where
  "is_valid_node pl node_id = (node_id \<in> dom (nodes pl))"

section \<open>Space-time planner (path\_planner.py)\<close>

type_synonym state = "int \<times> int"
type_synonym edge = "int \<times> int \<times> int"
type_synonym entry = "real \<times> real \<times> int \<times> int"
type_synonym search = "entry list \<times> (state \<rightharpoonup> state) \<times> (state \<rightharpoonup> real)"

text \<open>
  The open set is a \<open>heapq\<close> of tuples \<open>(f, g, node, t)\<close>. \<open>heappop\<close> removes and returns
  the least tuple in Python's lexicographic tuple order; the array layout of the binary
  heap is not observable and the model keeps the entries in a list.
\<close>

fun entry_less :: "entry \<Rightarrow> entry \<Rightarrow> bool" where
  "entry_less (f1, g1, n1, t1) (f2, g2, n2, t2) =
     (f1 < f2 \<or> (f1 = f2 \<and> (g1 < g2 \<or> (g1 = g2 \<and> (n1 < n2 \<or> (n1 = n2 \<and> t1 < t2))))))"

definition heap_min :: "entry \<Rightarrow> entry list \<Rightarrow> entry" where
  "heap_min e es = fold (\<lambda>x m. if entry_less x m then x else m) es e"

definition heappop :: "entry list \<Rightarrow> (entry \<times> entry list) option" where
  "heappop h = (case h of [] \<Rightarrow> None | e # es \<Rightarrow> Some (heap_min e es, remove1 (heap_min e es) h))"

definition heappush :: "entry list \<Rightarrow> entry \<Rightarrow> entry list" where
  "heappush h e = h @ [e]"

text \<open>\<open>neighbors = [(cur_node, 1.0)] + [(nxt, float(cost)) for nxt, cost in self.graph.get(cur_node, [])]\<close>\<close>

definition neighbors :: "planner \<Rightarrow> int \<Rightarrow> (int \<times> real) list" where
  "neighbors pl cur_node = (cur_node, 1) # get_default (graph pl cur_node) []"

text \<open>
  The body of \<open>for nxt_node, step_cost in neighbors\<close>. \<open>g_score.get(next_state, inf)\<close>
  is a missing entry that every finite cost beats.
\<close>

definition relax ::
  "planner \<Rightarrow> int \<Rightarrow> state set \<Rightarrow> edge set \<Rightarrow> real \<Rightarrow> int \<Rightarrow> int \<Rightarrow> int \<times> real \<Rightarrow> search \<Rightarrow> search" where
  "relax pl goal reserved_nodes reserved_edges g cur_node t nb s =
     (case nb of (nxt_node, step_cost) \<Rightarrow>
      case s of (open_heap, came_from, g_score) \<Rightarrow>
        if (nxt_node, t + 1) \<in> reserved_nodes then s
        else if nxt_node \<noteq> cur_node \<and> (nxt_node, cur_node, t) \<in> reserved_edges then s
        else if (case g_score (nxt_node, t + 1) of None \<Rightarrow> True | Some old \<Rightarrow> g + step_cost < old)
          then (heappush open_heap (g + step_cost + heuristic pl nxt_node goal, g + step_cost, nxt_node, t + 1),
                came_from((nxt_node, t + 1) \<mapsto> (cur_node, t)),
                g_score((nxt_node, t + 1) \<mapsto> g + step_cost))
          else s)"

text \<open>
  \<open>while cur in came_from: cur = came_from[cur]; path.append(cur)\<close>. For an arbitrary
  parent map the loop need not end, so not returning is the value \<open>None\<close>.
\<close>

partial_function (option) reconstruct :: "(state \<rightharpoonup> state) \<Rightarrow> state \<Rightarrow> state list \<Rightarrow> state list option" where
  "reconstruct came_from cur path =
     (case came_from cur of
        None \<Rightarrow> Some path
      | Some p \<Rightarrow> reconstruct came_from p (path @ [p]))"

text \<open>
  The \<open>while open_heap\<close> loop. The result is \<open>Some None\<close> for Python's \<open>None\<close> (no path),
  \<open>Some (Some path)\<close> for a returned path, and \<open>None\<close> when the path reconstruction
  does not return.
\<close>

function astar_loop ::
  "planner \<Rightarrow> int \<Rightarrow> state set \<Rightarrow> edge set \<Rightarrow> int \<Rightarrow> search \<Rightarrow> state list option option" where
  "astar_loop pl goal reserved_nodes reserved_edges max_time (open_heap, came_from, g_score) =
     (case heappop open_heap of
        None \<Rightarrow> Some None
      | Some ((f, g, cur_node, t), rest) \<Rightarrow>
          if cur_node = goal
            then map_option (\<lambda>path. Some (rev path)) (reconstruct came_from (cur_node, t) [(cur_node, t)])
          else if t \<ge> max_time
            then astar_loop pl goal reserved_nodes reserved_edges max_time (rest, came_from, g_score)
          else astar_loop pl goal reserved_nodes reserved_edges max_time
                 (fold (relax pl goal reserved_nodes reserved_edges g cur_node t)
                    (neighbors pl cur_node) (rest, came_from, g_score)))"
  by pat_completeness auto

definition astar_with_time ::
  "planner \<Rightarrow> int \<Rightarrow> int \<Rightarrow> state set \<Rightarrow> edge set \<Rightarrow> int \<Rightarrow> state list option option" where
  "astar_with_time pl start goal reserved_nodes reserved_edges max_time =
     astar_loop pl goal reserved_nodes reserved_edges max_time
       (heappush [] (heuristic pl start goal, 0, start, 0), Map.empty, [(start, 0) \<mapsto> 0])"

definition plan_single_robot :: "planner \<Rightarrow> int \<Rightarrow> int \<Rightarrow> int \<Rightarrow> state list option option" where
  "plan_single_robot pl start goal max_time = astar_with_time pl start goal {} {} max_time"

text \<open>
  The reservation loop of \<open>prioritized_planning\<close>: every state of the path goes into
  \<open>reserved_nodes\<close>, every true move \<open>(node_i, node_j, t_i)\<close> into \<open>reserved_edges\<close>.
\<close>

fun reserve_path :: "state list \<Rightarrow> state set \<times> edge set \<Rightarrow> state set \<times> edge set" where
  "reserve_path [] r = r"
| "reserve_path ((node_i, t_i) # rest) (rn, re) =
     reserve_path rest
       (insert (node_i, t_i) rn,
        (case rest of
           [] \<Rightarrow> re
         | (node_j, t_j) # _ \<Rightarrow> if node_j \<noteq> node_i then insert (node_i, node_j, t_i) re else re))"

text \<open>\<open>for dt in range(1, stay_time_at_goal + 1): reserved_nodes.add((goal_node, goal_t + dt))\<close>\<close>

definition reserve_goal :: "state \<Rightarrow> int \<Rightarrow> state set \<Rightarrow> state set" where
  "reserve_goal gs stay_time_at_goal rn =
     (case gs of (goal_node, goal_t) \<Rightarrow>
        rn \<union> set (map (\<lambda>dt. (goal_node, goal_t + dt)) [1..stay_time_at_goal]))"

text \<open>
  The loop \<open>for rid in range(num_robots)\<close> with \<open>num_robots = len(starts)\<close>: the remaining
  starts and goals are the tails from index \<open>rid\<close>; \<open>goals[rid]\<close> raises IndexError when
  \<open>goals\<close> is the shorter list, \<open>path[-1]\<close> when the path is empty. Every slot of \<open>paths\<close> is
  filled when the loop ends, so the final comprehension returns the paths in robot order.
\<close>

fun plan_robots ::
  "planner \<Rightarrow> int \<Rightarrow> int \<Rightarrow> int list \<Rightarrow> int list \<Rightarrow> state set \<times> edge set \<Rightarrow> state list list
     \<Rightarrow> (py_error + state list list option) option" where
  "plan_robots pl max_time stay [] goals r paths = Some (Inr (Some paths))"
| "plan_robots pl max_time stay (start # starts) [] r paths = Some (Inl IndexError)"
| "plan_robots pl max_time stay (start # starts) (goal # goals) (rn, re) paths =
     (case astar_with_time pl start goal rn re max_time of
        None \<Rightarrow> None
      | Some None \<Rightarrow> Some (Inr None)
      | Some (Some path) \<Rightarrow>
          if path = [] then Some (Inl IndexError)
          else plan_robots pl max_time stay starts goals
                 (case reserve_path path (rn, re) of
                    (rn', re') \<Rightarrow> (reserve_goal (last path) stay rn', re'))
                 (paths @ [path]))"

definition prioritized_planning ::
  "planner \<Rightarrow> int list \<Rightarrow> int list \<Rightarrow> int \<Rightarrow> int \<Rightarrow> (py_error + state list list option) option" where
  "prioritized_planning pl starts goals max_time stay_time_at_goal =
     plan_robots pl max_time stay_time_at_goal starts goals ({}, {}) []"

text \<open>\<open>compress_to_node_path\<close>: the loop carries \<open>node_path\<close> and \<open>last\<close>.\<close>

fun compress_loop :: "state list \<Rightarrow> int list \<Rightarrow> int option \<Rightarrow> int list" where
  "compress_loop [] node_path last_node = node_path"
| "compress_loop ((node, t) # rest) node_path last_node =
     (if last_node = None \<or> Some node \<noteq> last_node
        then compress_loop rest (node_path @ [node]) (Some node)
        else compress_loop rest node_path last_node)"

definition compress_to_node_path :: "state list \<Rightarrow> int list" where
  "compress_to_node_path timed_path = compress_loop timed_path [] None"

subsection \<open>Properties of space-time paths\<close>

text \<open>
  A step \<open>(u, t) \<rightarrow> (v, t')\<close> is a wait or a move along an edge of the graph, one time unit
  later, that avoids the reserved states and does not run against a reserved edge.
\<close>

definition out_neighbors :: "planner \<Rightarrow> int \<Rightarrow> int set" where
  "out_neighbors pl u = fst ` set (get_default (graph pl u) [])"

definition graph_step :: "planner \<Rightarrow> state \<Rightarrow> state \<Rightarrow> bool" where
  "graph_step pl p s = (snd s = snd p + 1 \<and> (fst s = fst p \<or> fst s \<in> out_neighbors pl (fst p)))"

definition free_step :: "state set \<Rightarrow> edge set \<Rightarrow> state \<Rightarrow> state \<Rightarrow> bool" where
  "free_step rn re p s = (s \<notin> rn \<and> (fst s \<noteq> fst p \<longrightarrow> (fst s, fst p, snd p) \<notin> re))"

definition step_ok :: "planner \<Rightarrow> state set \<Rightarrow> edge set \<Rightarrow> state \<Rightarrow> state \<Rightarrow> bool" where
  "step_ok pl rn re p s = (0 \<le> snd p \<and> graph_step pl p s \<and> free_step rn re p s)"

fun chain :: "(state \<Rightarrow> state \<Rightarrow> bool) \<Rightarrow> state list \<Rightarrow> bool" where
  "chain R [] = True"
| "chain R [s] = True"
| "chain R (p # s # rest) = (R p s \<and> chain R (s # rest))"

definition timed_path_ok :: "planner \<Rightarrow> state list \<Rightarrow> bool" where
  "timed_path_ok pl path = (path \<noteq> [] \<and> snd (hd path) = 0 \<and> chain (graph_step pl) path)"

definition avoids :: "planner \<Rightarrow> state set \<Rightarrow> edge set \<Rightarrow> int \<Rightarrow> state list \<Rightarrow> bool" where
  "avoids pl rn re start path = (path \<noteq> [] \<and> hd path = (start, 0) \<and> chain (step_ok pl rn re) path)"

text \<open>The invariant of the search loop, for a search that began at \<open>(start, 0)\<close>.\<close>

definition search_inv :: "planner \<Rightarrow> state set \<Rightarrow> edge set \<Rightarrow> int \<Rightarrow> search \<Rightarrow> bool" where
  "search_inv pl rn re start s =
     (case s of (open_heap, came_from, g_score) \<Rightarrow>
        (\<forall>e \<in> set open_heap. snd (snd e) = (start, 0) \<or> snd (snd e) \<in> dom came_from) \<and>
        (\<forall>c p. came_from c = Some p \<longrightarrow>
           step_ok pl rn re p c \<and> (p = (start, 0) \<or> p \<in> dom came_from)))"


text \<open>
  What a path reserves: its states, and its true moves \<open>(u, v, t)\<close>. Two paths are in
  vertex conflict when they share a state \<open>(node, t)\<close>, and in swap conflict when one has
  a step \<open>(u, t) \<rightarrow> (v, t + 1)\<close> and the other a step \<open>(v, t) \<rightarrow> (u, t + 1)\<close>.
  \<open>planned\<close> says that every path of a batch avoids what the earlier paths reserve.
\<close>

fun moves :: "state list \<Rightarrow> edge set" where
  "moves [] = {}"
| "moves [s] = {}"
| "moves (p # s # rest) = (if fst s \<noteq> fst p then {(fst p, fst s, snd p)} else {}) \<union> moves (s # rest)"

definition steps :: "state list \<Rightarrow> (state \<times> state) list" where
  "steps path = zip path (tl path)"

definition vertex_conflict :: "state list \<Rightarrow> state list \<Rightarrow> bool" where
  "vertex_conflict p q = (\<exists>s \<in> set p. s \<in> set q)"

definition swap_conflict :: "state list \<Rightarrow> state list \<Rightarrow> bool" where
  "swap_conflict p q =
     (\<exists>a \<in> set (steps p). \<exists>b \<in> set (steps q).
        snd (fst a) = snd (fst b) \<and> fst (fst a) = fst (snd b) \<and> fst (snd a) = fst (fst b))"

fun planned :: "planner \<Rightarrow> state set \<Rightarrow> edge set \<Rightarrow> int list \<Rightarrow> state list list \<Rightarrow> bool" where
  "planned pl rn re [] [] = True"
| "planned pl rn re (s # ss) (p # ps) =
     (avoids pl rn re s p \<and> planned pl (rn \<union> set p) (re \<union> moves p) ss ps)"
| "planned pl rn re _ _ = False"

section \<open>Dictionaries in insertion order\<close>

text \<open>
  A Python \<open>dict\<close> whose iteration order matters is an association list with distinct
  keys: \<open>d.get(k)\<close> is \<open>map_of d k\<close>, \<open>d[k] = v\<close> replaces the value of an existing key in
  place and appends a new key at the end.
\<close>

fun dict_set :: "('k \<times> 'v) list \<Rightarrow> 'k \<Rightarrow> 'v \<Rightarrow> ('k \<times> 'v) list" where
  "dict_set [] k v = [(k, v)]"
| "dict_set ((k', v') # d) k v = (if k' = k then (k, v) # d else (k', v') # dict_set d k v)"

text \<open>\<open>if k not in d: d[k] = []\<close> followed by \<open>d[k].append(x)\<close>.\<close>

definition dict_append :: "('k \<times> 'v list) list \<Rightarrow> 'k \<Rightarrow> 'v \<Rightarrow> ('k \<times> 'v list) list" where
  "dict_append d k x =
     (case map_of d k of
        None \<Rightarrow> dict_set d k [x]
      | Some l \<Rightarrow> dict_set d k (l @ [x]))"

section \<open>Shelf registry (shelf\_manager.py)\<close>

datatype shelf_status = IN_PLACE | CARRIED | AT_WORKSTATION

record shelf =
  s_shelf_id :: int
  s_label :: string
  s_items :: "string list"
  s_home_node :: int
  s_current_node :: int
  s_status :: shelf_status
  s_carried_by :: "int option"

text \<open>
  \<open>all_shelf_nodes\<close> is a Python set that \<open>get_empty_shelf_positions\<close> iterates; the model
  holds its elements as a list in that iteration order.
\<close>

record shelf_manager =
  shelves :: "(int \<times> shelf) list"
  item_to_shelf :: "string \<rightharpoonup> int"
  all_shelf_nodes :: "int list"

fun find_shelves_loop ::
  "(string \<rightharpoonup> int) \<Rightarrow> string list \<Rightarrow> (int \<times> string list) list \<Rightarrow> (int \<times> string list) list" where
  "find_shelves_loop i2s [] result = result"
| "find_shelves_loop i2s (item # rest) result =
     (case i2s item of
        Some shelf_id \<Rightarrow> find_shelves_loop i2s rest (dict_append result shelf_id item)
      | None \<Rightarrow> find_shelves_loop i2s rest result)"

definition find_shelves_for_items :: "shelf_manager \<Rightarrow> string list \<Rightarrow> (int \<times> string list) list" where
  "find_shelves_for_items sm items = find_shelves_loop (item_to_shelf sm) items []"

definition mark_shelf_picked_up :: "shelf_manager \<Rightarrow> int \<Rightarrow> int \<Rightarrow> shelf_manager \<times> bool" where
  "mark_shelf_picked_up sm shelf_id robot_id =
     (case map_of (shelves sm) shelf_id of
        None \<Rightarrow> (sm, False)
      | Some sh \<Rightarrow>
          (sm\<lparr>shelves := dict_set (shelves sm) shelf_id
                 (sh\<lparr>s_status := CARRIED, s_carried_by := Some robot_id\<rparr>)\<rparr>, True))"

definition get_empty_shelf_positions :: "shelf_manager \<Rightarrow> int list" where
  "get_empty_shelf_positions sm =
     filter (\<lambda>node. node \<notin> set (map s_current_node
                (filter (\<lambda>sh. s_status sh = IN_PLACE) (map snd (shelves sm)))))
       (all_shelf_nodes sm)"

text \<open>
  The search loop of \<open>find_nearest_empty_position\<close>; \<open>best_dist = inf\<close> with
  \<open>best_node = None\<close> is the value \<open>None\<close>.
\<close>

fun nearest_loop :: "planner \<Rightarrow> int \<Rightarrow> int list \<Rightarrow> (int \<times> real) option \<Rightarrow> (int \<times> real) option" where
  "nearest_loop pl from_node [] best = best"
| "nearest_loop pl from_node (node # rest) best =
     (if (case best of None \<Rightarrow> True | Some (best_node, best_dist) \<Rightarrow> heuristic pl from_node node < best_dist)
        then nearest_loop pl from_node rest (Some (node, heuristic pl from_node node))
        else nearest_loop pl from_node rest best)"

definition find_nearest_empty_position :: "planner \<Rightarrow> shelf_manager \<Rightarrow> int \<Rightarrow> int option" where
  "find_nearest_empty_position pl sm from_node =
     (if get_empty_shelf_positions sm = [] then None
      else map_option fst (nearest_loop pl from_node (get_empty_shelf_positions sm) None))"

section \<open>Task store and decomposer (task\_manager.py)\<close>

datatype task_status = PENDING | IN_PROGRESS | COMPLETED | FAILED

datatype subtask_type =
  GO_TO_SHELF | PICKUP_SHELF | DELIVER_TO_WS | WAIT_PICKING | RETURN_SHELF | FORWARD_SHELF

text \<open>
  \<open>SubTask.shelf_id\<close> is annotated \<open>Optional[int]\<close>; every \<open>SubTask\<close> the repository builds
  gets an \<open>int\<close>. \<open>PickingTask.current_subtask_idx\<close> starts at 0 and is only ever
  incremented, so it is a natural number. \<open>created_at\<close> (the wall clock) is left out.
\<close>

record subtask =
  st_subtask_id :: string
  st_type :: subtask_type
  st_shelf_id :: int
  st_target_node :: int
  st_items_to_pick :: "string list"
  st_status :: task_status
  st_assigned_robot :: "int option"

record picking_task =
  t_task_id :: string
  t_workstation_id :: int
  t_items :: "string list"
  t_shelf_sequence :: "int list"
  t_subtasks :: "subtask list"
  t_current_subtask_idx :: nat
  t_status :: task_status
  t_items_picked :: "string list"
  t_assigned_robot :: "int option"

record demand =
  d_task_id :: string
  d_workstation_id :: int
  d_items :: "string list"

record task_manager =
  tasks :: "(string \<times> picking_task) list"
  shelf_demand :: "(int \<times> demand list) list"

definition get_current_subtask :: "picking_task \<Rightarrow> subtask option" where
  "get_current_subtask task =
     (if t_current_subtask_idx task < length (t_subtasks task)
        then Some (t_subtasks task ! t_current_subtask_idx task) else None)"

text \<open>\<open>advance_subtask\<close> returns the task after the mutation, and the next sub-task.\<close>

definition advance_subtask :: "picking_task \<Rightarrow> picking_task \<times> subtask option" where
  "advance_subtask task =
     (let idx = t_current_subtask_idx task;
          sts = (if idx < length (t_subtasks task)
                   then (t_subtasks task)[idx := (t_subtasks task ! idx)\<lparr>st_status := COMPLETED\<rparr>]
                   else t_subtasks task);
          idx' = idx + 1
      in if idx' < length sts
           then (task\<lparr>t_subtasks := sts[idx' := (sts ! idx')\<lparr>st_status := IN_PROGRESS\<rparr>],
                      t_current_subtask_idx := idx'\<rparr>,
                 Some ((sts ! idx')\<lparr>st_status := IN_PROGRESS\<rparr>))
           else (task\<lparr>t_subtasks := sts, t_current_subtask_idx := idx'\<rparr>, None))"

text \<open>Decimal digits of the sub-task counter, for \<open>f"{task_id}_ST{subtask_counter}"\<close>.\<close>

fun str_nat :: "nat \<Rightarrow> string" where
  "str_nat n =
     (if n < 10 then [''0123456789'' ! n]
      else str_nat (n div 10) @ [''0123456789'' ! (n mod 10)])"

declare str_nat.simps [simp del]

definition new_subtask :: "string \<Rightarrow> nat \<Rightarrow> subtask_type \<Rightarrow> int \<Rightarrow> int \<Rightarrow> string list \<Rightarrow> subtask" where
  "new_subtask task_id subtask_counter ty shelf_id target_node items_to_pick =
     \<lparr>st_subtask_id = task_id @ ''_ST'' @ str_nat subtask_counter, st_type = ty,
      st_shelf_id = shelf_id, st_target_node = target_node, st_items_to_pick = items_to_pick,
      st_status = PENDING, st_assigned_robot = None\<rparr>"

text \<open>The loop \<open>for shelf_id in shelf_ids\<close> of \<open>create_task\<close>, five sub-tasks per shelf.\<close>

fun build_subtasks ::
  "string \<Rightarrow> int \<Rightarrow> (int \<times> string list) list \<Rightarrow> int list \<Rightarrow> nat \<Rightarrow> subtask list \<Rightarrow> subtask list" where
  "build_subtasks task_id workstation_id shelf_items [] subtask_counter subtasks = subtasks"
| "build_subtasks task_id workstation_id shelf_items (shelf_id # rest) subtask_counter subtasks =
     build_subtasks task_id workstation_id shelf_items rest (subtask_counter + 5)
       (subtasks @
        [new_subtask task_id (subtask_counter + 1) GO_TO_SHELF shelf_id shelf_id [],
         new_subtask task_id (subtask_counter + 2) PICKUP_SHELF shelf_id shelf_id [],
         new_subtask task_id (subtask_counter + 3) DELIVER_TO_WS shelf_id workstation_id [],
         new_subtask task_id (subtask_counter + 4) WAIT_PICKING shelf_id workstation_id
           (get_default (map_of shelf_items shelf_id) []),
         new_subtask task_id (subtask_counter + 5) RETURN_SHELF shelf_id shelf_id []])"

text \<open>The loop \<open>for shelf_id, items_on_shelf in shelf_items.items()\<close> that records the demand.\<close>

fun register_demand ::
  "string \<Rightarrow> int \<Rightarrow> (int \<times> string list) list \<Rightarrow> (int \<times> demand list) list \<Rightarrow> (int \<times> demand list) list" where
  "register_demand task_id workstation_id [] sd = sd"
| "register_demand task_id workstation_id ((shelf_id, items_on_shelf) # rest) sd =
     register_demand task_id workstation_id rest
       (dict_append sd shelf_id
          \<lparr>d_task_id = task_id, d_workstation_id = workstation_id, d_items = items_on_shelf\<rparr>)"

text \<open>
  \<open>create_task\<close>. \<open>list.sort(key=...)\<close> is a stable sort, as \<open>sort_key\<close> is. The result is
  the task manager after the call and the returned task (\<open>None\<close> for Python's \<open>None\<close>).
\<close>

definition create_task ::
  "planner \<Rightarrow> shelf_manager \<Rightarrow> task_manager \<Rightarrow> string \<Rightarrow> int \<Rightarrow> string list
     \<Rightarrow> task_manager \<times> picking_task option" where
  "create_task pl sm tm task_id workstation_id items =
     (let shelf_items = find_shelves_for_items sm items in
      if shelf_items = [] then (tm, None)
      else
        let shelf_ids = sort_key (\<lambda>sid. heuristic pl workstation_id sid) (map fst shelf_items);
            task = \<lparr>t_task_id = task_id, t_workstation_id = workstation_id, t_items = items,
                    t_shelf_sequence = shelf_ids,
                    t_subtasks = build_subtasks task_id workstation_id shelf_items shelf_ids 0 [],
                    t_current_subtask_idx = 0, t_status = PENDING, t_items_picked = [],
                    t_assigned_robot = None\<rparr>
        in (\<lparr>tasks = dict_set (tasks tm) task_id task,
             shelf_demand = register_demand task_id workstation_id shelf_items (shelf_demand tm)\<rparr>,
            Some task))"

text \<open>\<open>create_batch_tasks\<close>; a request is \<open>(task_id, workstation_id, items)\<close>.\<close>

fun create_batch_loop ::
  "planner \<Rightarrow> shelf_manager \<Rightarrow> task_manager \<Rightarrow> (string \<times> int \<times> string list) list \<Rightarrow> picking_task list
     \<Rightarrow> task_manager \<times> picking_task list" where
  "create_batch_loop pl sm tm [] created = (tm, created)"
| "create_batch_loop pl sm tm ((task_id, workstation_id, items) # rest) created =
     (case create_task pl sm tm task_id workstation_id items of
        (tm', Some task) \<Rightarrow> create_batch_loop pl sm tm' rest (created @ [task])
      | (tm', None) \<Rightarrow> create_batch_loop pl sm tm' rest created)"

definition create_batch_tasks ::
  "planner \<Rightarrow> shelf_manager \<Rightarrow> task_manager \<Rightarrow> (string \<times> int \<times> string list) list
     \<Rightarrow> task_manager \<times> picking_task list" where
  "create_batch_tasks pl sm tm task_list = create_batch_loop pl sm tm task_list []"

definition put_task :: "task_manager \<Rightarrow> string \<Rightarrow> picking_task \<Rightarrow> task_manager" where
  "put_task tm task_id task = tm\<lparr>tasks := dict_set (tasks tm) task_id task\<rparr>"

definition get_next_pending_task :: "task_manager \<Rightarrow> picking_task option" where
  "get_next_pending_task tm = find (\<lambda>task. t_status task = PENDING) (map snd (tasks tm))"

definition start_task :: "task_manager \<Rightarrow> string \<Rightarrow> int \<Rightarrow> task_manager \<times> subtask option" where
  "start_task tm task_id robot_id =
     (case map_of (tasks tm) task_id of
        None \<Rightarrow> (tm, None)
      | Some task0 \<Rightarrow>
          let task = task0\<lparr>t_status := IN_PROGRESS, t_assigned_robot := Some robot_id\<rparr> in
          (case get_current_subtask task of
             None \<Rightarrow> (put_task tm task_id task, None)
           | Some first \<Rightarrow>
               (put_task tm task_id
                  (task\<lparr>t_subtasks := (t_subtasks task)[t_current_subtask_idx task :=
                      first\<lparr>st_status := IN_PROGRESS, st_assigned_robot := Some robot_id\<rparr>]\<rparr>),
                Some (first\<lparr>st_status := IN_PROGRESS, st_assigned_robot := Some robot_id\<rparr>))))"

text \<open>
  The test inside the loop of \<open>_check_shelf_needed_elsewhere\<close>: the demand comes from
  another workstation, its task is still in the store as pending or in progress, and some
  item of the demand is not yet among that task's picked items.
\<close>

definition still_needed :: "(string \<times> picking_task) list \<Rightarrow> int \<Rightarrow> demand \<Rightarrow> bool" where
  "still_needed ts current_ws d =
     (d_workstation_id d \<noteq> current_ws \<and>
      (case map_of ts (d_task_id d) of
         None \<Rightarrow> False
       | Some other_task \<Rightarrow>
           (t_status other_task = PENDING \<or> t_status other_task = IN_PROGRESS) \<and>
           filter (\<lambda>i. i \<notin> set (t_items_picked other_task)) (d_items d) \<noteq> []))"

fun check_demands :: "(string \<times> picking_task) list \<Rightarrow> int \<Rightarrow> demand list \<Rightarrow> int option" where
  "check_demands ts current_ws [] = None"
| "check_demands ts current_ws (d # ds) =
     (if still_needed ts current_ws d then Some (d_workstation_id d)
      else check_demands ts current_ws ds)"

definition check_shelf_needed_elsewhere :: "task_manager \<Rightarrow> int \<Rightarrow> int \<Rightarrow> int option" where
  "check_shelf_needed_elsewhere tm shelf_id current_ws =
     check_demands (tasks tm) current_ws (get_default (map_of (shelf_demand tm) shelf_id) [])"

datatype pick_result =
  Pick_Error string
| Continue_Picking "string list" "string list"
| Shelf_Done_Forward int int
| Shelf_Done_Return int int

text \<open>
  \<open>_decide_shelf_action\<close>. \<open>task\<close> is the object stored under \<open>task_id\<close>; its mutations are
  written back to the store. \<open>Shelf_Done_Forward forward_to_ws shelf_id\<close> and
  \<open>Shelf_Done_Return return_to shelf_id\<close> are the two \<open>shelf_done\<close> answers.
\<close>

definition decide_shelf_action ::
  "planner \<Rightarrow> shelf_manager \<Rightarrow> task_manager \<Rightarrow> string \<Rightarrow> picking_task \<Rightarrow> int
     \<Rightarrow> task_manager \<times> pick_result" where
  "decide_shelf_action pl sm tm task_id task shelf_id =
     (let forward_ws = check_shelf_needed_elsewhere tm shelf_id (t_workstation_id task) in
      case advance_subtask task of
        (task', None) \<Rightarrow> (put_task tm task_id task', Pick_Error ''No next subtask available'')
      | (task', Some next_st) \<Rightarrow>
          (case forward_ws of
             Some ws \<Rightarrow>
               (put_task tm task_id
                  (task'\<lparr>t_subtasks := (t_subtasks task')[t_current_subtask_idx task' :=
                      next_st\<lparr>st_type := FORWARD_SHELF, st_target_node := ws\<rparr>]\<rparr>),
                Shelf_Done_Forward ws shelf_id)
           | None \<Rightarrow>
               (let empty_pos = get_default
                      (find_nearest_empty_position pl sm (t_workstation_id task)) shelf_id
                in (put_task tm task_id
                      (task'\<lparr>t_subtasks := (t_subtasks task')[t_current_subtask_idx task' :=
                          next_st\<lparr>st_target_node := empty_pos\<rparr>]\<rparr>),
                    Shelf_Done_Return empty_pos shelf_id))))"

text \<open>
  \<open>handle_item_picked\<close>: the item is appended to \<open>task.items_picked\<close> first, and only then
  is the current sub-task looked at.
\<close>

definition handle_item_picked ::
  "planner \<Rightarrow> shelf_manager \<Rightarrow> task_manager \<Rightarrow> string \<Rightarrow> string \<Rightarrow> task_manager \<times> pick_result" where
  "handle_item_picked pl sm tm task_id item =
     (case map_of (tasks tm) task_id of
        None \<Rightarrow> (tm, Pick_Error (''Task '' @ task_id @ '' not found''))
      | Some task0 \<Rightarrow>
          let task = (if item \<notin> set (t_items_picked task0)
                        then task0\<lparr>t_items_picked := t_items_picked task0 @ [item]\<rparr> else task0);
              tm1 = put_task tm task_id task
          in (case get_current_subtask task of
                None \<Rightarrow> (tm1, Pick_Error ''Not in WAIT_PICKING state'')
              | Some current_st \<Rightarrow>
                  if st_type current_st \<noteq> WAIT_PICKING
                    then (tm1, Pick_Error ''Not in WAIT_PICKING state'')
                  else if filter (\<lambda>i. i \<notin> set (t_items_picked task)) (st_items_to_pick current_st) \<noteq> []
                    then (tm1, Continue_Picking
                            (filter (\<lambda>i. i \<notin> set (t_items_picked task)) (st_items_to_pick current_st))
                            (filter (\<lambda>i. i \<notin> set (t_items_picked task)) (t_items task)))
                  else decide_shelf_action pl sm tm1 task_id task (st_shelf_id current_st)))"

definition remove_shelf_demand :: "task_manager \<Rightarrow> string \<Rightarrow> task_manager" where
  "remove_shelf_demand tm task_id =
     tm\<lparr>shelf_demand :=
          filter (\<lambda>(shelf_id, ds). ds \<noteq> [])
            (map (\<lambda>(shelf_id, ds). (shelf_id, filter (\<lambda>d. d_task_id d \<noteq> task_id) ds))
               (shelf_demand tm))\<rparr>"

datatype complete_result =
  Complete_Error string
| Wait_Picking_Answer "string list" int
| Task_Complete string "string list"
| Next_Subtask subtask

definition handle_subtask_complete :: "task_manager \<Rightarrow> string \<Rightarrow> task_manager \<times> complete_result" where
  "handle_subtask_complete tm task_id =
     (case map_of (tasks tm) task_id of
        None \<Rightarrow> (tm, Complete_Error (''Task '' @ task_id @ '' not found''))
      | Some task \<Rightarrow>
          (case get_current_subtask task of
             None \<Rightarrow> (tm, Complete_Error ''No current subtask'')
           | Some current_st \<Rightarrow>
               if st_type current_st = WAIT_PICKING
                 then (tm, Wait_Picking_Answer (st_items_to_pick current_st) (st_shelf_id current_st))
               else
                 (case advance_subtask task of
                    (task', None) \<Rightarrow>
                      (remove_shelf_demand (put_task tm task_id (task'\<lparr>t_status := COMPLETED\<rparr>)) task_id,
                       Task_Complete task_id (t_items_picked task'))
                  | (task', Some next_st) \<Rightarrow> (put_task tm task_id task', Next_Subtask next_st))))"

section \<open>Robot registry (robot\_manager.py)\<close>

datatype robot_status = IDLE | BUSY | ERROR

text \<open>
  A robot, with the fields that robot selection reads; \<open>current_task\<close> and \<open>task_queue\<close>
  (untyped dictionaries) are left out.
\<close>

record robot =
  r_rid :: int
  r_name :: string
  r_home_node :: int
  r_current_node :: int
  r_status :: robot_status

definition get_idle_robot :: "(int \<times> robot) list \<Rightarrow> robot option" where
  "get_idle_robot robots = find (\<lambda>robot. r_status robot = IDLE) (map snd robots)"

text \<open>
  Modelled from the spec: \<open>RobotManager.get_available_robot(target_node, path_planner)\<close>,
  which \<open>RequestHandler._try_assign_pending_tasks\<close> calls and which is not defined in the
  sources at hand. The spec: "of all robots with status = IDLE, returns the one minimizing
  planner heuristic distance from its current_node to target_node. Returns none if all are
  busy." Among several nearest robots the model keeps the first in registry order.
\<close>

definition get_available_robot :: "planner \<Rightarrow> (int \<times> robot) list \<Rightarrow> int \<Rightarrow> robot option" where
  "get_available_robot pl robots target_node =
     (case filter (\<lambda>robot. r_status robot = IDLE) (map snd robots) of
        [] \<Rightarrow> None
      | robot # rest \<Rightarrow>
          Some (fold (\<lambda>cand best.
                  if heuristic pl (r_current_node cand) target_node
                       < heuristic pl (r_current_node best) target_node
                    then cand else best) rest robot))"

section \<open>Example configurations\<close>

text \<open>A corridor of three nodes on a line, with unit edges in both directions.\<close>

definition corridor :: planner where
  "corridor = \<lparr>nodes = [1 \<mapsto> (0, 0), 2 \<mapsto> (1, 0), 3 \<mapsto> (2, 0)],
               graph = [1 \<mapsto> [(2, 1)], 2 \<mapsto> [(1, 1), (3, 1)], 3 \<mapsto> [(2, 1)]]\<rparr>"

text \<open>
  A floor with two shelves (9 and 11), three pick stations (50, 52, 51 from left to right
  on the bottom row) and two robot homes, a shelf registry for it, and a fleet of three
  robots of which the second is busy.
\<close>

definition warehouse :: planner where
  "warehouse = \<lparr>nodes = [50 \<mapsto> (0, 0), 52 \<mapsto> (1, 0), 51 \<mapsto> (2, 0), 9 \<mapsto> (0, 1), 11 \<mapsto> (0, 2),
                          1 \<mapsto> (1, 1), 37 \<mapsto> (2, 2)],
                graph = Map.empty\<rparr>"

definition shelf_config :: shelf_manager where
  "shelf_config =
     \<lparr>shelves =
        [(9, \<lparr>s_shelf_id = 9, s_label = ''S1'', s_items = [''A'', ''B'', ''C''], s_home_node = 9,
              s_current_node = 9, s_status = IN_PLACE, s_carried_by = None\<rparr>),
         (11, \<lparr>s_shelf_id = 11, s_label = ''S2'', s_items = [''D''], s_home_node = 11,
               s_current_node = 11, s_status = IN_PLACE, s_carried_by = None\<rparr>)],
      item_to_shelf = [''A'' \<mapsto> 9, ''B'' \<mapsto> 9, ''C'' \<mapsto> 9, ''D'' \<mapsto> 11],
      all_shelf_nodes = [9, 11]\<rparr>"

definition fleet :: "(int \<times> robot) list" where
  "fleet =
     [(1, \<lparr>r_rid = 1, r_name = ''AGV-1'', r_home_node = 1, r_current_node = 37, r_status = IDLE\<rparr>),
      (2, \<lparr>r_rid = 2, r_name = ''AGV-2'', r_home_node = 37, r_current_node = 50, r_status = BUSY\<rparr>),
      (3, \<lparr>r_rid = 3, r_name = ''AGV-3'', r_home_node = 1, r_current_node = 1, r_status = IDLE\<rparr>)]"

text \<open>
  A map file that declares node 1 only and whose edges name the undeclared nodes 2 and 3,
  and string parsers that accept the numerals \<open>"2"\<close> and \<open>"1.5"\<close>.
\<close>

definition dangling_map :: json where
  "dangling_map =
     JObj [(''nodes'', JList [JObj [(''id'', JInt 1), (''x'', JNum 0), (''y'', JNum 0)]]),
           (''edges'', JList [JObj [(''from'', JInt 1), (''to'', JInt 2), (''cost'', JNum 1)],
                              JObj [(''from'', JInt 3), (''to'', JInt 1)]])]"

definition parsers :: builtins where
  "parsers = \<lparr>str_to_int = [''2'' \<mapsto> 2], str_to_float = [''1.5'' \<mapsto> 3 / 2]\<rparr>"

text \<open>The registry after robot 1 has picked up shelf 9.\<close>

definition carried_shelf_9 :: shelf_manager where
  "carried_shelf_9 = fst (mark_shelf_picked_up shelf_config 9 1)"

text \<open>
  Three orders that all need shelf 9, submitted together; the task manager after the batch;
  and the task manager when robot 1 has brought shelf 9 to station 50 for \<open>T1\<close>
  (\<open>start_task\<close>, then the arrivals that complete GO\_TO\_SHELF, PICKUP\_SHELF and
  DELIVER\_TO\_WS).
\<close>

definition no_tasks :: task_manager where
  "no_tasks = \<lparr>tasks = [], shelf_demand = []\<rparr>"

definition three_orders :: "(string \<times> int \<times> string list) list" where
  "three_orders = [(''T1'', 50, [''A'']), (''T2'', 51, [''B'']), (''T3'', 52, [''C''])]"

definition registered :: task_manager where
  "registered = fst (create_batch_tasks warehouse shelf_config no_tasks three_orders)"

definition at_station :: task_manager where
  "at_station =
     fst (handle_subtask_complete
       (fst (handle_subtask_complete
         (fst (handle_subtask_complete (fst (start_task registered ''T1'' 1)) ''T1'')) ''T1'')) ''T1'')"

section \<open>Termination of the search loop\<close>

definition slack :: "int \<Rightarrow> entry \<Rightarrow> nat" where
  "slack max_time e = (case e of (f, g, n, t) \<Rightarrow> nat (max_time - t))"

lemma heap_min_in: "heap_min e es \<in> set (e # es)"
proof -
  have "fold (\<lambda>x m. if entry_less x m then x else m) es e \<in> insert e (set es)"
    by (induction es arbitrary: e) auto
  then show ?thesis by (simp add: heap_min_def)
qed

lemma heappop_Some:
  assumes "heappop h = Some (e, rest)"
  shows "e \<in> set h" and "mset h = add_mset e (mset rest)" and "set rest \<subseteq> set h"
proof -
  obtain x xs where h: "h = x # xs" and e: "e = heap_min x xs" and r: "rest = remove1 e h"
    using assms by (auto simp: heappop_def split: list.splits)
  show "e \<in> set h" using heap_min_in [of x xs] h e by simp
  then show "mset h = add_mset e (mset rest)" using r by simp
  show "set rest \<subseteq> set h" using r by (simp add: set_remove1_subset)
qed

lemma relax_heap:
  "\<exists>new. fst (relax pl goal rn re g c t nb s) = fst s @ new \<and> (\<forall>e \<in> set new. snd (snd (snd e)) = t + 1)"
  by (cases s; cases nb) (auto simp: relax_def heappush_def)

lemma fold_relax_heap:
  "\<exists>new. fst (fold (relax pl goal rn re g c t) nbs s) = fst s @ new \<and> (\<forall>e \<in> set new. snd (snd (snd e)) = t + 1)"
proof (induction nbs arbitrary: s)
  case Nil
  then show ?case by simp
next
  case (Cons nb nbs)
  obtain n1 where n1: "fst (relax pl goal rn re g c t nb s) = fst s @ n1"
    "\<forall>e \<in> set n1. snd (snd (snd e)) = t + 1"
    using relax_heap by blast
  obtain n2 where n2: "fst (fold (relax pl goal rn re g c t) nbs (relax pl goal rn re g c t nb s))
      = fst (relax pl goal rn re g c t nb s) @ n2"
    "\<forall>e \<in> set n2. snd (snd (snd e)) = t + 1"
    using Cons.IH by blast
  have "fst (fold (relax pl goal rn re g c t) (nb # nbs) s) = fst s @ (n1 @ n2)"
    using n1 n2 by simp
  moreover have "\<forall>e \<in> set (n1 @ n2). snd (snd (snd e)) = t + 1"
    using n1 n2 by auto
  ultimately show ?case by blast
qed

termination astar_loop
proof (relation "inv_image (mult {(a::nat, b). a < b})
    (\<lambda>(pl, goal, rn, re, max_time, s). mset (map (slack max_time) (fst s)))")
  show "wf (inv_image (mult {(a::nat, b). a < b})
    (\<lambda>(pl, goal, rn, re, max_time, s). mset (map (slack max_time) (fst s))))"
    by (intro wf_inv_image wf_mult) (simp add: wf_less)
next
  fix pl :: planner and goal :: int and reserved_nodes :: "state set" and reserved_edges :: "edge set"
    and max_time :: int and open_heap :: "entry list" and came_from :: "state \<rightharpoonup> state"
    and g_score :: "state \<rightharpoonup> real" and x2 x y rest xa ya xb yb f g cur_node t
  assume pop: "heappop open_heap = Some x2" "(x, rest) = x2" "(f, ya) = x" "(g, yb) = ya" "(cur_node, t) = yb"
  then have pop': "heappop open_heap = Some ((f, g, cur_node, t), rest)" by auto
  have ms: "mset (map (slack max_time) open_heap)
      = add_mset (slack max_time (f, g, cur_node, t)) (mset (map (slack max_time) rest))"
    using heappop_Some(2) [OF pop'] by (metis mset_map image_mset_add_mset)
  show "((pl, goal, reserved_nodes, reserved_edges, max_time, rest, came_from, g_score),
         (pl, goal, reserved_nodes, reserved_edges, max_time, open_heap, came_from, g_score))
        \<in> inv_image (mult {(a::nat, b). a < b})
           (\<lambda>(pl, goal, rn, re, max_time, s). mset (map (slack max_time) (fst s)))"
    using ms by (simp add: subset_implies_mult)
  assume "\<not> max_time \<le> t"
  then have lt: "t < max_time" by simp
  obtain new where new: "fst (fold (relax pl goal reserved_nodes reserved_edges g cur_node t)
        (neighbors pl cur_node) (rest, came_from, g_score)) = rest @ new"
      "\<forall>e \<in> set new. snd (snd (snd e)) = t + 1"
    using fold_relax_heap [of pl goal reserved_nodes reserved_edges g cur_node t
        "neighbors pl cur_node" "(rest, came_from, g_score)"] by auto
  have small: "\<forall>k \<in># mset (map (slack max_time) new). \<exists>j \<in># {#slack max_time (f, g, cur_node, t)#}. (k, j) \<in> {(a::nat, b). a < b}"
    using new(2) lt by (auto simp: slack_def)
  have "(mset (map (slack max_time) rest) + mset (map (slack max_time) new),
         mset (map (slack max_time) rest) + {#slack max_time (f, g, cur_node, t)#})
        \<in> mult {(a::nat, b). a < b}"
    by (rule one_step_implies_mult [OF _ small]) simp
  then show "((pl, goal, reserved_nodes, reserved_edges, max_time,
          fold (relax pl goal reserved_nodes reserved_edges g cur_node t)
            (neighbors pl cur_node) (rest, came_from, g_score)),
         (pl, goal, reserved_nodes, reserved_edges, max_time, open_heap, came_from, g_score))
        \<in> inv_image (mult {(a::nat, b). a < b})
           (\<lambda>(pl, goal, rn, re, max_time, s). mset (map (slack max_time) (fst s)))"
    using ms new(1) by (simp add: case_prod_beta)
qed

section \<open>Correctness of the search loop\<close>

text \<open>
  \<open>search_inv\<close> holds at the start of the search and is kept by every iteration: each
  entry of the open set is the start state or has a parent, and each parent link is a step
  that passed the two reservation tests. Following the parents from a popped state
  therefore ends at \<open>(start, 0)\<close>, time falling by one at each link.
\<close>

lemma search_inv_cf:
  "search_inv pl rn re start (h, cf, gs) \<Longrightarrow> cf c = Some p
     \<Longrightarrow> step_ok pl rn re p c \<and> (p = (start, 0) \<or> p \<in> dom cf)"
  unfolding search_inv_def prod.case by blast

lemma search_inv_heap:
  "search_inv pl rn re start (h, cf, gs) \<Longrightarrow> e \<in> set h
     \<Longrightarrow> snd (snd e) = (start, 0) \<or> snd (snd e) \<in> dom cf"
  unfolding search_inv_def prod.case by blast

lemma search_inv_update:
  assumes inv: "search_inv pl rn re start (h, cf, gs)"
    and st: "step_ok pl rn re p k"
    and pd: "p = (start, 0) \<or> p \<in> dom cf"
  shows "search_inv pl rn re start (heappush h (f, g, k), cf(k \<mapsto> p), gs')"
  unfolding search_inv_def prod.case
proof (intro conjI ballI allI impI)
  fix e assume "e \<in> set (heappush h (f, g, k))"
  then consider "e \<in> set h" | "e = (f, g, k)" by (auto simp: heappush_def)
  then show "snd (snd e) = (start, 0) \<or> snd (snd e) \<in> dom (cf(k \<mapsto> p))"
  proof cases
    case 1
    have "dom cf \<subseteq> dom (cf(k \<mapsto> p))" by auto
    then show ?thesis using search_inv_heap [OF inv 1] by blast
  next
    case 2
    then show ?thesis by simp
  qed
next
  fix c q assume cq: "(cf(k \<mapsto> p)) c = Some q"
  show "step_ok pl rn re q c"
  proof (cases "c = k")
    case True then show ?thesis using cq st by simp
  next
    case False then show ?thesis using cq search_inv_cf [OF inv] by simp
  qed
  show "q = (start, 0) \<or> q \<in> dom (cf(k \<mapsto> p))"
  proof (cases "c = k")
    case True then show ?thesis using cq pd by auto
  next
    case False
    then have "cf c = Some q" using cq by simp
    then have "q = (start, 0) \<or> q \<in> dom cf" using search_inv_cf [OF inv] by blast
    then show ?thesis by auto
  qed
qed

lemma relax_inv:
  assumes inv: "search_inv pl rn re start s"
    and cur: "(c, t) = (start, 0) \<or> (c, t) \<in> dom (fst (snd s))"
    and t0: "0 \<le> t"
    and nb: "nb \<in> set (neighbors pl c)"
  shows "search_inv pl rn re start (relax pl goal rn re g c t nb s)
       \<and> dom (fst (snd s)) \<subseteq> dom (fst (snd (relax pl goal rn re g c t nb s)))"
proof -
  obtain h cf gs where s: "s = (h, cf, gs)" by (cases s) auto
  obtain v w where nbv: "nb = (v, w)" by (cases nb) auto
  have gstep: "graph_step pl (c, t) (v, t + 1)"
    using nb nbv by (force simp: graph_step_def neighbors_def out_neighbors_def)
  have upd: "search_inv pl rn re start (heappush h (f', g', v, t + 1), cf((v, t + 1) \<mapsto> (c, t)), gs')"
    if "(v, t + 1) \<notin> rn" and "\<not> (v \<noteq> c \<and> (v, c, t) \<in> re)" for f' g' gs'
  proof (rule search_inv_update)
    show "search_inv pl rn re start (h, cf, gs)" using inv s by simp
    show "step_ok pl rn re (c, t) (v, t + 1)"
      using that gstep t0 by (auto simp: step_ok_def free_step_def)
    show "(c, t) = (start, 0) \<or> (c, t) \<in> dom cf" using cur s by simp
  qed
  show ?thesis
    unfolding s nbv relax_def prod.case
    using inv [unfolded s] upd by (auto simp del: split_paired_All split_paired_Ex)
qed

lemma fold_relax_inv:
  assumes "search_inv pl rn re start s"
    and "(c, t) = (start, 0) \<or> (c, t) \<in> dom (fst (snd s))"
    and "0 \<le> t"
    and "set nbs \<subseteq> set (neighbors pl c)"
  shows "search_inv pl rn re start (fold (relax pl goal rn re g c t) nbs s)"
  using assms
proof (induction nbs arbitrary: s)
  case Nil
  then show ?case by simp
next
  case (Cons nb nbs)
  have nb: "nb \<in> set (neighbors pl c)" using Cons.prems(4) by simp
  note step = relax_inv [OF Cons.prems(1) Cons.prems(2) Cons.prems(3) nb, of goal g]
  have "search_inv pl rn re start (fold (relax pl goal rn re g c t) nbs (relax pl goal rn re g c t nb s))"
  proof (rule Cons.IH)
    show "search_inv pl rn re start (relax pl goal rn re g c t nb s)" using step by simp
    show "(c, t) = (start, 0) \<or> (c, t) \<in> dom (fst (snd (relax pl goal rn re g c t nb s)))"
      using step Cons.prems(2) by blast
    show "0 \<le> t" by fact
    show "set nbs \<subseteq> set (neighbors pl c)" using Cons.prems(4) by simp
  qed
  then show ?case by simp
qed

lemma inv_time_nonneg:
  assumes "search_inv pl rn re start (h, cf, gs)" and "(f, g, c, t) \<in> set h"
  shows "0 \<le> t" and "(c, t) = (start, 0) \<or> (c, t) \<in> dom cf"
proof -
  show d: "(c, t) = (start, 0) \<or> (c, t) \<in> dom cf"
    using assms by (force simp: search_inv_def)
  show "0 \<le> t"
  proof (cases "(c, t) = (start, 0)")
    case True then show ?thesis by simp
  next
    case False
    then obtain p where "cf (c, t) = Some p" using d by auto
    then have "step_ok pl rn re p (c, t)" using search_inv_cf [OF assms(1)] by blast
    then show ?thesis by (auto simp: step_ok_def graph_step_def)
  qed
qed

lemma chain_Cons: "chain R (p # l) = (l = [] \<or> (R p (hd l) \<and> chain R l))"
  by (cases l) auto

lemma reconstruct_ok:
  assumes cf: "\<forall>c p. cf c = Some p \<longrightarrow> step_ok pl rn re p c \<and> (p = (start, 0) \<or> p \<in> dom cf)"
  shows "nat (snd cur) = n \<Longrightarrow> cur = (start, 0) \<or> cur \<in> dom cf \<Longrightarrow> acc \<noteq> [] \<Longrightarrow> last acc = cur
     \<Longrightarrow> chain (step_ok pl rn re) (rev acc)
     \<Longrightarrow> \<exists>path. reconstruct cf cur acc = Some path \<and> path \<noteq> [] \<and> last path = (start, 0)
          \<and> hd path = hd acc \<and> chain (step_ok pl rn re) (rev path)"
proof (induction n arbitrary: cur acc rule: less_induct)
  case (less n)
  show ?case
  proof (cases "cf cur")
    case None
    then have "cur = (start, 0)" using less.prems(2) by auto
    moreover have "reconstruct cf cur acc = Some acc"
      using None by (subst reconstruct.simps) simp
    ultimately show ?thesis using less.prems by auto
  next
    case (Some p)
    then have st: "step_ok pl rn re p cur" and pd: "p = (start, 0) \<or> p \<in> dom cf"
      using cf by blast+
    have lt: "nat (snd p) < n" using st less.prems(1) by (auto simp: step_ok_def graph_step_def)
    have ch: "chain (step_ok pl rn re) (rev (acc @ [p]))"
      using less.prems(3,4,5) st by (simp add: chain_Cons hd_rev)
    obtain path where path: "reconstruct cf p (acc @ [p]) = Some path" "path \<noteq> []"
        "last path = (start, 0)" "hd path = hd (acc @ [p])" "chain (step_ok pl rn re) (rev path)"
      using less.IH [OF lt refl pd _ _ ch] by auto
    have "reconstruct cf cur acc = Some path"
      using Some path(1) by (subst reconstruct.simps) simp
    then show ?thesis using path less.prems(3) by auto
  qed
qed

lemma astar_loop_ok:
  "search_inv pl rn re start s \<Longrightarrow> astar_loop pl goal rn re max_time s = Some (Some path)
     \<Longrightarrow> avoids pl rn re start path \<and> fst (last path) = goal"
proof (induction pl goal rn re max_time s rule: astar_loop.induct)
  case (1 pl goal rn re max_time h cf gs)
  show ?case
  proof (cases "heappop h")
    case None
    then show ?thesis using "1.prems"(2) by simp
  next
    case (Some a)
    obtain f g c t rest where a: "a = ((f, g, c, t), rest)" by (cases a) auto
    note pop = Some [unfolded a]
    have mem: "(f, g, c, t) \<in> set h" using heappop_Some(1) [OF pop] .
    have t0: "0 \<le> t" and cd: "(c, t) = (start, 0) \<or> (c, t) \<in> dom cf"
      using inv_time_nonneg [OF "1.prems"(1) mem] by auto
    have inv_rest: "search_inv pl rn re start (rest, cf, gs)"
      using "1.prems"(1) heappop_Some(3) [OF pop] by (auto simp: search_inv_def)
    show ?thesis
    proof (cases "c = goal")
      case True
      have cfp: "\<forall>c p. cf c = Some p \<longrightarrow> step_ok pl rn re p c \<and> (p = (start, 0) \<or> p \<in> dom cf)"
        using "1.prems"(1) by (simp add: search_inv_def)
      obtain acc where acc: "reconstruct cf (c, t) [(c, t)] = Some acc" "acc \<noteq> []"
          "last acc = (start, 0)" "hd acc = hd [(c, t)]" "chain (step_ok pl rn re) (rev acc)"
        using reconstruct_ok [OF cfp refl cd, of "[(c, t)]"] by auto
      have "path = rev acc" using "1.prems"(2) pop True acc(1) by simp
      then show ?thesis using acc True by (simp add: avoids_def hd_rev last_rev)
    next
      case False
      show ?thesis
      proof (cases "max_time \<le> t")
        case True
        have "astar_loop pl goal rn re max_time (rest, cf, gs) = Some (Some path)"
          using "1.prems"(2) pop False True by simp
        then show ?thesis using "1.IH"(1) [OF pop refl refl refl refl False True inv_rest] by simp
      next
        case nt: False
        let ?s = "fold (relax pl goal rn re g c t) (neighbors pl c) (rest, cf, gs)"
        have inv': "search_inv pl rn re start ?s"
          by (rule fold_relax_inv [OF inv_rest _ t0]) (use cd in auto)
        have "astar_loop pl goal rn re max_time ?s = Some (Some path)"
          using "1.prems"(2) pop False nt by simp
        then show ?thesis using "1.IH"(2) [OF pop refl refl refl refl False nt inv'] by simp
      qed
    qed
  qed
qed

lemma astar_with_time_ok:
  assumes "astar_with_time pl start goal rn re max_time = Some (Some path)"
  shows "avoids pl rn re start path" and "fst (last path) = goal"
proof -
  have "search_inv pl rn re start (heappush [] (heuristic pl start goal, 0, start, 0), Map.empty, [(start, 0) \<mapsto> 0])"
    by (simp add: search_inv_def heappush_def)
  from astar_loop_ok [OF this assms [unfolded astar_with_time_def]]
  show "avoids pl rn re start path" and "fst (last path) = goal" by simp_all
qed

lemma astar_loop_returns:
  "search_inv pl rn re start s \<Longrightarrow> \<exists>r. astar_loop pl goal rn re max_time s = Some r"
proof (induction pl goal rn re max_time s rule: astar_loop.induct)
  case (1 pl goal rn re max_time h cf gs)
  show ?case
  proof (cases "heappop h")
    case None
    then show ?thesis by simp
  next
    case (Some a)
    obtain f g c t rest where a: "a = ((f, g, c, t), rest)" by (cases a) auto
    note pop = Some [unfolded a]
    have mem: "(f, g, c, t) \<in> set h" using heappop_Some(1) [OF pop] .
    have t0: "0 \<le> t" and cd: "(c, t) = (start, 0) \<or> (c, t) \<in> dom cf"
      using inv_time_nonneg [OF "1.prems"(1) mem] by auto
    have inv_rest: "search_inv pl rn re start (rest, cf, gs)"
      using "1.prems"(1) heappop_Some(3) [OF pop] by (auto simp: search_inv_def)
    show ?thesis
    proof (cases "c = goal")
      case True
      have cfp: "\<forall>c p. cf c = Some p \<longrightarrow> step_ok pl rn re p c \<and> (p = (start, 0) \<or> p \<in> dom cf)"
        using "1.prems"(1) by (simp add: search_inv_def)
      obtain acc where acc: "reconstruct cf (c, t) [(c, t)] = Some acc"
        using reconstruct_ok [OF cfp refl cd, of "[(c, t)]"] by auto
      then show ?thesis using pop True by simp
    next
      case False
      show ?thesis
      proof (cases "max_time \<le> t")
        case True
        then show ?thesis using "1.IH"(1) [OF pop refl refl refl refl False True inv_rest] pop False by simp
      next
        case nt: False
        let ?s = "fold (relax pl goal rn re g c t) (neighbors pl c) (rest, cf, gs)"
        have inv': "search_inv pl rn re start ?s"
          by (rule fold_relax_inv [OF inv_rest _ t0]) (use cd in auto)
        show ?thesis using "1.IH"(2) [OF pop refl refl refl refl False nt inv'] pop False nt by simp
      qed
    qed
  qed
qed

lemma astar_with_time_returns: "\<exists>r. astar_with_time pl start goal rn re max_time = Some r"
  unfolding astar_with_time_def
  by (rule astar_loop_returns [where start = start]) (simp add: search_inv_def heappush_def)

lemma chain_mono: "(\<And>p s. R p s \<Longrightarrow> Q p s) \<Longrightarrow> chain R path \<Longrightarrow> chain Q path"
  by (induction R path rule: chain.induct) auto

lemma avoids_timed_path_ok: "avoids pl rn re start path \<Longrightarrow> timed_path_ok pl path"
  unfolding avoids_def timed_path_ok_def
  by (auto intro: chain_mono [where R = "step_ok pl rn re"] simp: step_ok_def)

lemma step_ok_antimono:
  "rn' \<subseteq> rn \<Longrightarrow> re' \<subseteq> re \<Longrightarrow> step_ok pl rn re p s \<Longrightarrow> step_ok pl rn' re' p s"
  by (auto simp: step_ok_def free_step_def)

lemma avoids_antimono:
  "rn' \<subseteq> rn \<Longrightarrow> re' \<subseteq> re \<Longrightarrow> avoids pl rn re start path \<Longrightarrow> avoids pl rn' re' start path"
  unfolding avoids_def
  using chain_mono [of "step_ok pl rn re" "step_ok pl rn' re'" path] step_ok_antimono by blast

lemma reserve_path_eq: "reserve_path path (rn, re) = (rn \<union> set path, re \<union> moves path)"
proof (induction path arbitrary: rn re)
  case Nil
  then show ?case by simp
next
  case (Cons s path)
  obtain u t where s: "s = (u, t)" by (cases s) auto
  show ?case
  proof (cases path)
    case Nil
    then show ?thesis using s by simp
  next
    case (Cons s' rest)
    obtain v t' where s': "s' = (v, t')" by (cases s') auto
    show ?thesis unfolding s Cons s' using Cons.IH [unfolded Cons s']
      by (auto simp del: reserve_path.simps(2) simp add: reserve_path.simps(2) [of u t "(v, t') # rest"])
  qed
qed

lemma planned_antimono:
  "planned pl rn re ss ps \<Longrightarrow> rn' \<subseteq> rn \<Longrightarrow> re' \<subseteq> re \<Longrightarrow> planned pl rn' re' ss ps"
proof (induction pl rn re ss ps arbitrary: rn' re' rule: planned.induct)
  case (2 pl rn re s ss p ps)
  have "avoids pl rn' re' s p" using "2.prems" avoids_antimono by auto
  moreover have "planned pl (rn' \<union> set p) (re' \<union> moves p) ss ps"
    by (rule "2.IH") (use "2.prems" in auto)
  ultimately show ?case by simp
qed simp_all

lemma planned_length: "planned pl rn re ss ps \<Longrightarrow> length ss = length ps"
  by (induction pl rn re ss ps rule: planned.induct) simp_all

lemma planned_nth:
  "planned pl rn re ss ps \<Longrightarrow> j < length ps \<Longrightarrow> avoids pl rn re (ss ! j) (ps ! j)"
proof (induction pl rn re ss ps arbitrary: j rule: planned.induct)
  case (2 pl rn re s ss p ps)
  show ?case
  proof (cases j)
    case 0
    then show ?thesis using "2.prems" by simp
  next
    case (Suc k)
    have "avoids pl (rn \<union> set p) (re \<union> moves p) (ss ! k) (ps ! k)"
      using "2.IH" [of k] "2.prems" Suc by simp
    then have "avoids pl rn re (ss ! k) (ps ! k)"
      by (rule avoids_antimono [rotated 2]) auto
    then show ?thesis using Suc by simp
  qed
qed simp_all

lemma planned_pair:
  "planned pl rn re ss ps \<Longrightarrow> i < j \<Longrightarrow> j < length ps
     \<Longrightarrow> avoids pl (set (ps ! i)) (moves (ps ! i)) (ss ! j) (ps ! j)"
proof (induction pl rn re ss ps arbitrary: i j rule: planned.induct)
  case (2 pl rn re s ss p ps)
  obtain k where j: "j = Suc k" using "2.prems"(2) by (cases j) auto
  have tl: "planned pl (rn \<union> set p) (re \<union> moves p) ss ps" using "2.prems"(1) by simp
  show ?case
  proof (cases i)
    case 0
    have "avoids pl (rn \<union> set p) (re \<union> moves p) (ss ! k) (ps ! k)"
      by (rule planned_nth [OF tl]) (use "2.prems"(3) j in simp)
    then have "avoids pl (set p) (moves p) (ss ! k) (ps ! k)"
      by (rule avoids_antimono [rotated 2]) auto
    then show ?thesis using 0 j by simp
  next
    case (Suc l)
    then show ?thesis using "2.IH" [OF tl, of l k] "2.prems" j by simp
  qed
qed simp_all

lemma plan_robots_planned:
  "plan_robots pl max_time stay starts goals (rn, re) acc = Some (Inr (Some paths))
     \<Longrightarrow> \<exists>new. paths = acc @ new \<and> planned pl rn re starts new"
proof (induction starts arbitrary: goals rn re acc)
  case Nil
  then show ?case by simp
next
  case (Cons start starts)
  then obtain goal goals' where g: "goals = goal # goals'" by (cases goals) auto
  note res = Cons.prems [unfolded g]
  obtain path where path: "astar_with_time pl start goal rn re max_time = Some (Some path)"
    using res by (auto split: option.splits)
  have ne: "path \<noteq> []" using res path by (auto split: if_splits)
  let ?rn = "reserve_goal (last path) stay (rn \<union> set path)"
  let ?re = "re \<union> moves path"
  have rec: "plan_robots pl max_time stay starts goals' (?rn, ?re) (acc @ [path]) = Some (Inr (Some paths))"
    using res path ne by (simp add: reserve_path_eq)
  obtain new where new: "paths = (acc @ [path]) @ new" "planned pl ?rn ?re starts new"
    using Cons.IH [OF rec] by blast
  have sub: "rn \<union> set path \<subseteq> ?rn" by (auto simp: reserve_goal_def split: prod.splits)
  have "planned pl (rn \<union> set path) ?re starts new"
    by (rule planned_antimono [OF new(2) sub]) simp
  moreover have "avoids pl rn re start path" by (rule astar_with_time_ok(1) [OF path])
  ultimately have "planned pl rn re (start # starts) (path # new)" by simp
  then show ?case using new(1) by auto
qed

lemma prioritized_planning_planned:
  "prioritized_planning pl starts goals max_time stay = Some (Inr (Some paths))
     \<Longrightarrow> planned pl {} {} starts paths"
  unfolding prioritized_planning_def using plan_robots_planned by fastforce

text \<open>
  The planner always returns: the reconstruction of a path ends for every parent map the
  search builds, so the value \<open>None\<close> of the model (no return) never occurs.
\<close>

lemma plan_robots_returns:
  "\<exists>r. plan_robots pl max_time stay starts goals (rn, re) acc = Some r"
proof (induction starts arbitrary: goals rn re acc)
  case Nil
  then show ?case by simp
next
  case (Cons start starts)
  show ?case
  proof (cases goals)
    case Nil
    then show ?thesis by simp
  next
    case (Cons goal goals')
    obtain r where r: "astar_with_time pl start goal rn re max_time = Some r"
      using astar_with_time_returns by blast
    show ?thesis
    proof (cases r)
      case None
      then show ?thesis using r Cons by simp
    next
      case (Some path)
      obtain rn' re' where rr: "reserve_path path (rn, re) = (rn', re')"
        by (cases "reserve_path path (rn, re)") auto
      show ?thesis
        using r Some Cons rr Cons.IH [of goals' "reserve_goal (last path) stay rn'" re' "acc @ [path]"]
        by simp
    qed
  qed
qed

lemma prioritized_planning_returns:
  "\<exists>r. prioritized_planning pl starts goals max_time stay = Some r"
  unfolding prioritized_planning_def by (rule plan_robots_returns)

lemma chain_tail_later:
  "chain (step_ok pl rn re) (a # l) \<Longrightarrow> x \<in> set l \<Longrightarrow> snd a < snd x \<and> x \<notin> rn"
proof (induction l arbitrary: a)
  case Nil
  then show ?case by simp
next
  case (Cons b l)
  have ab: "step_ok pl rn re a b" and ch: "chain (step_ok pl rn re) (b # l)"
    using Cons.prems(1) by simp_all
  show ?case
  proof (cases "x = b")
    case True
    then show ?thesis using ab by (simp add: step_ok_def graph_step_def free_step_def)
  next
    case False
    then have "snd b < snd x \<and> x \<notin> rn" using Cons.IH [OF ch] Cons.prems(2) by simp
    then show ?thesis using ab by (simp add: step_ok_def graph_step_def)
  qed
qed

lemma chain_steps: "chain R path \<Longrightarrow> (a, b) \<in> set (steps path) \<Longrightarrow> R a b"
  unfolding steps_def by (induction R path rule: chain.induct) auto

lemma steps_moves:
  "(a, b) \<in> set (steps path) \<Longrightarrow> fst b \<noteq> fst a \<Longrightarrow> (fst a, fst b, snd a) \<in> moves path"
  unfolding steps_def by (induction path rule: moves.induct) auto

lemma steps_mem: "(a, b) \<in> set (steps path) \<Longrightarrow> a \<in> set path \<and> b \<in> set path"
  unfolding steps_def by (cases path) (auto dest: set_zip_leftD set_zip_rightD)

lemma shared_states:
  assumes p: "avoids pl rn re si p" and q: "avoids pl (set p) (moves p) sj q"
  shows "set p \<inter> set q \<subseteq> {(sj, 0)}" and "si \<noteq> sj \<Longrightarrow> \<not> vertex_conflict p q"
proof -
  obtain q' where qq: "q = (sj, 0) # q'" using q by (cases q) (auto simp: avoids_def)
  obtain p' where pp: "p = (si, 0) # p'" using p by (cases p) (auto simp: avoids_def)
  have qfree: "x \<notin> set p" if "x \<in> set q'" for x
    using chain_tail_later [of pl "set p" "moves p" "(sj, 0)" q' x] q qq that
    by (simp add: avoids_def)
  show 1: "set p \<inter> set q \<subseteq> {(sj, 0)}" using qfree qq by auto
  have plate: "0 < snd x" if "x \<in> set p'" for x
    using chain_tail_later [of pl rn re "(si, 0)" p' x] p pp that by (simp add: avoids_def)
  show "\<not> vertex_conflict p q" if "si \<noteq> sj"
  proof
    assume "vertex_conflict p q"
    then have "(sj, 0) \<in> set p" using 1 by (auto simp: vertex_conflict_def)
    then show False using plate [of "(sj, 0)"] pp that by auto
  qed
qed

lemma no_swap:
  assumes p: "avoids pl rn re si p" and q: "avoids pl (set p) (moves p) sj q"
  shows "\<not> swap_conflict p q"
proof
  assume "swap_conflict p q"
  then obtain a b c d where ab: "(a, b) \<in> set (steps p)" and cd: "(c, d) \<in> set (steps q)"
    and eq: "snd a = snd c" "fst a = fst d" "fst b = fst c"
    by (auto simp: swap_conflict_def)
  have sab: "step_ok pl rn re a b"
    using chain_steps [of "step_ok pl rn re" p a b] ab p by (simp add: avoids_def)
  have scd: "step_ok pl (set p) (moves p) c d"
    using chain_steps [of "step_ok pl (set p) (moves p)" q c d] cd q by (simp add: avoids_def)
  show False
  proof (cases "fst b = fst a")
    case True
    have "snd d = snd b" using sab scd eq by (simp add: step_ok_def graph_step_def)
    then have "d = b" using True eq by (simp add: prod_eq_iff)
    then have "d \<in> set p" using steps_mem [OF ab] by simp
    then show False using scd by (simp add: step_ok_def free_step_def)
  next
    case False
    then have "(fst a, fst b, snd a) \<in> moves p" by (rule steps_moves [OF ab])
    then show False using scd False eq by (simp add: step_ok_def free_step_def)
  qed
qed

lemma compress_loop_Some:
  "compress_loop tp (acc @ [x]) (Some x) = acc @ remdups_adj (x # map fst tp)"
proof (induction tp arbitrary: acc x)
  case Nil
  then show ?case by simp
next
  case (Cons s tp)
  obtain n t where s: "s = (n, t)" by (cases s) auto
  show ?case
  proof (cases "n = x")
    case True
    then show ?thesis using Cons.IH [of acc x] s by simp
  next
    case False
    then show ?thesis using Cons.IH [of "acc @ [x]" n] s by simp
  qed
qed

lemma compress_remdups_adj: "compress_to_node_path tp = remdups_adj (map fst tp)"
proof (cases tp)
  case Nil
  then show ?thesis by (simp add: compress_to_node_path_def)
next
  case (Cons s rest)
  obtain n t where s: "s = (n, t)" by (cases s) auto
  show ?thesis using compress_loop_Some [of rest "[]" n] Cons s
    by (simp add: compress_to_node_path_def)
qed

section \<open>Evaluating the planner on concrete maps\<close>

lemmas planner_eval = astar_with_time_def astar_loop.simps heappop_def heap_min_def heappush_def
  relax_def neighbors_def heuristic_def get_default_def reconstruct.simps

lemma upto_1_3: "[1..3] = [1, 2, 3]"
  by code_simp

lemma corridor_swap:
  "prioritized_planning corridor [1, 2] [2, 1] 50 0
     = Some (Inr (Some [[(1, 0), (2, 1)], [(2, 0), (3, 1), (2, 2), (1, 3)]]))"
  by (simp add: prioritized_planning_def reserve_goal_def planner_eval corridor_def)

section \<open>The planner's claims\<close>

text \<open>
  Claim C1, as amended. When \<open>prioritized_planning\<close> returns paths, then for robots
  \<open>i < j\<close>: the two paths are never in swap conflict; the only state they can share is
  robot \<open>j\<close>'s start state \<open>(starts[j], 0)\<close>; and when the two start nodes differ they share
  no \<open>(node, t)\<close> at all. The search never tests its own start state against the
  reservations, so two robots given the same start node both occupy it at time 0.
\<close>

theorem prioritized_planning_conflict_free:
  assumes "prioritized_planning pl starts goals max_time stay = Some (Inr (Some paths))"
    and "i < j" and "j < length paths"
  shows "length paths = length starts \<and>
         (starts ! i \<noteq> starts ! j \<longrightarrow> \<not> vertex_conflict (paths ! i) (paths ! j)) \<and>
         set (paths ! i) \<inter> set (paths ! j) \<subseteq> {(starts ! j, 0)} \<and>
         \<not> swap_conflict (paths ! i) (paths ! j)"
proof -
  have pl: "planned pl {} {} starts paths" by (rule prioritized_planning_planned [OF assms(1)])
  have len: "length paths = length starts" using planned_length [OF pl] by simp
  have i: "avoids pl {} {} (starts ! i) (paths ! i)"
    by (rule planned_nth [OF pl]) (use assms in simp)
  have j: "avoids pl (set (paths ! i)) (moves (paths ! i)) (starts ! j) (paths ! j)"
    by (rule planned_pair [OF pl assms(2,3)])
  show ?thesis using len shared_states [OF i j] no_swap [OF i j] by blast
qed

text \<open>
  The swap scenario: robots at the adjacent nodes 1 and 2 want to exchange places; the
  second robot steps aside to node 3 first.
\<close>

theorem prioritized_planning_conflict_free_witness:
  "prioritized_planning corridor [1, 2] [2, 1] 50 0
     = Some (Inr (Some [[(1, 0), (2, 1)], [(2, 0), (3, 1), (2, 2), (1, 3)]])) \<and>
   (0::nat) < 1 \<and> (1::nat) < length [[(1, 0), (2, 1)], [(2, 0), (3, 1), (2, 2), (1, 3)::state]] \<and>
   [1, 2::int] ! 0 \<noteq> [1, 2] ! 1 \<and>
   \<not> vertex_conflict [(1, 0), (2, 1)] [(2, 0), (3, 1), (2, 2), (1, 3)] \<and>
   \<not> swap_conflict [(1, 0), (2, 1)] [(2, 0), (3, 1), (2, 2), (1, 3)]"
  using corridor_swap prioritized_planning_conflict_free [OF corridor_swap, of 0 1] by simp

text \<open>
  Claim C1 as stated fails: two robots that start at node 1 both get a path through
  \<open>(1, 0)\<close>, and the call succeeds.
\<close>

theorem prioritized_planning_same_start_counterexample:
  "prioritized_planning corridor [1, 1] [2, 3] 50 3
     = Some (Inr (Some [[(1, 0), (2, 1)], [(1, 0), (1, 1), (1, 2), (1, 3), (1, 4), (2, 5), (3, 6)]])) \<and>
   vertex_conflict [(1, 0), (2, 1)] [(1, 0), (1, 1), (1, 2), (1, 3), (1, 4), (2, 5), (3, 6)]"
proof
  show "prioritized_planning corridor [1, 1] [2, 3] 50 3
     = Some (Inr (Some [[(1, 0), (2, 1)], [(1, 0), (1, 1), (1, 2), (1, 3), (1, 4), (2, 5), (3, 6)]]))"
    by (simp add: prioritized_planning_def reserve_goal_def planner_eval corridor_def upto_1_3)
  show "vertex_conflict [(1, 0), (2, 1)] [(1, 0), (1, 1), (1, 2), (1, 3), (1, 4), (2, 5), (3, 6)]"
    by (simp add: vertex_conflict_def)
qed

text \<open>
  Claim C2. Every path returned by \<open>astar_with_time\<close>, and hence by \<open>plan_single_robot\<close>
  and \<open>prioritized_planning\<close>, is non-empty, begins at time 0, and each consecutive pair
  is \<open>(u, t)\<close> followed by \<open>(v, t + 1)\<close> with \<open>v = u\<close> or \<open>v\<close> an out-neighbour of \<open>u\<close> in the
  graph.
\<close>

theorem astar_path_steps:
  "(astar_with_time pl start goal reserved_nodes reserved_edges max_time = Some (Some path)
      \<longrightarrow> timed_path_ok pl path) \<and>
   (plan_single_robot pl start' goal' max_time' = Some (Some path') \<longrightarrow> timed_path_ok pl path') \<and>
   (prioritized_planning pl starts goals max_time'' stay = Some (Inr (Some paths))
      \<longrightarrow> (\<forall>p \<in> set paths. timed_path_ok pl p))"
proof (intro conjI impI ballI)
  assume "astar_with_time pl start goal reserved_nodes reserved_edges max_time = Some (Some path)"
  then show "timed_path_ok pl path"
    using astar_with_time_ok(1) avoids_timed_path_ok by blast
next
  assume "plan_single_robot pl start' goal' max_time' = Some (Some path')"
  then show "timed_path_ok pl path'"
    unfolding plan_single_robot_def using astar_with_time_ok(1) avoids_timed_path_ok by blast
next
  fix p assume pp: "prioritized_planning pl starts goals max_time'' stay = Some (Inr (Some paths))"
    and "p \<in> set paths"
  then obtain j where j: "j < length paths" "p = paths ! j" by (auto simp: in_set_conv_nth)
  have "avoids pl {} {} (starts ! j) (paths ! j)"
    by (rule planned_nth [OF prioritized_planning_planned [OF pp] j(1)])
  then show "timed_path_ok pl p" using j(2) avoids_timed_path_ok by blast
qed

theorem astar_path_steps_witness:
  "astar_with_time corridor 2 1 {(1, 0), (2, 1)} {(1, 2, 0)} 50 = Some (Some [(2, 0), (3, 1), (2, 2), (1, 3)]) \<and>
   timed_path_ok corridor [(2, 0), (3, 1), (2, 2), (1, 3)] \<and>
   plan_single_robot corridor 1 3 50 = Some (Some [(1, 0), (2, 1), (3, 2)]) \<and>
   timed_path_ok corridor [(1, 0), (2, 1), (3, 2)] \<and>
   prioritized_planning corridor [1, 2] [2, 1] 50 0
     = Some (Inr (Some [[(1, 0), (2, 1)], [(2, 0), (3, 1), (2, 2), (1, 3)]])) \<and>
   timed_path_ok corridor [(1, 0), (2, 1)]"
proof -
  have a: "astar_with_time corridor 2 1 {(1, 0), (2, 1)} {(1, 2, 0)} 50 = Some (Some [(2, 0), (3, 1), (2, 2), (1, 3)])"
    by (simp add: planner_eval corridor_def)
  have b: "plan_single_robot corridor 1 3 50 = Some (Some [(1, 0), (2, 1), (3, 2)])"
    by (simp add: plan_single_robot_def planner_eval corridor_def)
  show ?thesis
    using a b corridor_swap astar_path_steps [of corridor 2 1 "{(1, 0), (2, 1)}" "{(1, 2, 0)}" 50
        "[(2, 0), (3, 1), (2, 2), (1, 3)]" 1 3 50 "[(1, 0), (2, 1), (3, 2)]" "[1, 2]" "[2, 1]" 50 0
        "[[(1, 0), (2, 1)], [(2, 0), (3, 1), (2, 2), (1, 3)]]"]
    by simp
qed

text \<open>
  Claim C9. The output of \<open>compress_to_node_path\<close> never has two equal consecutive nodes,
  and compressing any timed path whose node sequence is that output (whatever its times)
  gives the same node sequence again.
\<close>

theorem compress_idempotent:
  "distinct_adj (compress_to_node_path timed_path) \<and>
   (map fst again = compress_to_node_path timed_path
      \<longrightarrow> compress_to_node_path again = compress_to_node_path timed_path)"
  by (simp add: compress_remdups_adj distinct_adj_altdef [symmetric])

theorem compress_idempotent_witness:
  "distinct_adj (compress_to_node_path [(1, 0), (1, 1), (2, 2), (2, 3), (1, 4)]) \<and>
   map fst [(1, 7), (2, 8), (1, 9)] = compress_to_node_path [(1, 0), (1, 1), (2, 2), (2, 3), (1, 4)] \<and>
   compress_to_node_path [(1, 7), (2, 8), (1, 9)] = [1, 2, 1]"
  using compress_idempotent [of "[(1, 0), (1, 1), (2, 2), (2, 3), (1, 4)]" "[(1, 7), (2, 8), (1, 9)]"]
  by (simp add: compress_to_node_path_def)

text \<open>
  Claim C10. With \<open>start = goal = n\<close> the search returns \<open>[(n, 0)]\<close> at the first pop,
  whatever the reservations and the horizon, also when \<open>(n, 0)\<close> is reserved.
\<close>

theorem astar_start_is_goal:
  "astar_with_time pl n n reserved_nodes reserved_edges max_time = Some (Some [(n, 0)])"
  by (simp add: astar_with_time_def heappop_def heap_min_def heappush_def reconstruct.simps)

theorem astar_start_is_goal_witness:
  "(2::int, 0::int) \<in> {(2, 0), (2, 1)} \<and>
   astar_with_time corridor 2 2 {(2, 0), (2, 1)} {(1, 2, 0)} 0 = Some (Some [(2, 0)])"
  using astar_start_is_goal [of corridor 2 "{(2, 0), (2, 1)}" "{(1, 2, 0)}" 0] by simp

section \<open>The map store's claim\<close>

lemma int_ok_py_int: "int_ok bi v \<Longrightarrow> \<exists>i. py_int bi v = Inr i"
  by (cases v) auto

lemma float_ok_py_float: "float_ok bi v \<Longrightarrow> \<exists>r. py_float bi v = Inr r"
  by (cases v) auto

lemma has_int_subscript:
  "has_int bi kvs key \<Longrightarrow> \<exists>v i. subscript (JObj kvs) key = Inr v \<and> py_int bi v = Inr i"
  using int_ok_py_int by (fastforce split: option.splits)

lemma node_entry_ok_load_node: "node_entry_ok bi n \<Longrightarrow> \<exists>r. load_node bi n = Inr r"
proof (cases n)
  case (JObj kvs)
  assume "node_entry_ok bi n"
  then have id: "has_int bi kvs ''id''"
    and x: "float_ok bi (get_default (map_of kvs ''x'') (JNum 0))"
    and y: "float_ok bi (get_default (map_of kvs ''y'') (JNum 0))"
    using JObj by simp_all
  obtain v i where "subscript (JObj kvs) ''id'' = Inr v" "py_int bi v = Inr i"
    using has_int_subscript [OF id] by blast
  moreover obtain rx where "py_float bi (get_default (map_of kvs ''x'') (JNum 0)) = Inr rx"
    using float_ok_py_float [OF x] by blast
  moreover obtain ry where "py_float bi (get_default (map_of kvs ''y'') (JNum 0)) = Inr ry"
    using float_ok_py_float [OF y] by blast
  ultimately show ?thesis using JObj by (simp add: load_node_def)
qed simp_all

lemma edge_entry_ok_load_edge: "edge_entry_ok bi e \<Longrightarrow> \<exists>r. load_edge bi e = Inr r"
proof (cases e)
  case (JObj kvs)
  assume "edge_entry_ok bi e"
  then have a: "has_int bi kvs ''from''" and b: "has_int bi kvs ''to''"
    and c: "float_ok bi (get_default (map_of kvs ''cost'') (JNum 1))"
    using JObj by simp_all
  obtain va ia where "subscript (JObj kvs) ''from'' = Inr va" "py_int bi va = Inr ia"
    using has_int_subscript [OF a] by blast
  moreover obtain vb ib where "subscript (JObj kvs) ''to'' = Inr vb" "py_int bi vb = Inr ib"
    using has_int_subscript [OF b] by blast
  moreover obtain rc where "py_float bi (get_default (map_of kvs ''cost'') (JNum 1)) = Inr rc"
    using float_ok_py_float [OF c] by blast
  ultimately show ?thesis using JObj by (simp add: load_edge_def)
qed simp_all

lemma load_nodes_ok:
  "list_all (node_entry_ok bi) ns \<Longrightarrow> \<exists>m'. load_nodes bi ns m = Inr m'"
proof (induction ns arbitrary: m)
  case Nil
  then show ?case by simp
next
  case (Cons n ns)
  obtain i xy where "load_node bi n = Inr (i, xy)"
    using node_entry_ok_load_node [of bi n] Cons.prems by fastforce
  then show ?case using Cons.IH [of "m(i \<mapsto> xy)"] Cons.prems
    by (simp del: fun_upd_apply)
qed

lemma load_edges_ok:
  "list_all (edge_entry_ok bi) es \<Longrightarrow> \<exists>g'. load_edges bi es g = Inr g'"
proof (induction es arbitrary: g)
  case Nil
  then show ?case by simp
next
  case (Cons e es)
  obtain a b c where "load_edge bi e = Inr (a, b, c)"
    using edge_entry_ok_load_edge [of bi e] Cons.prems by fastforce
  then show ?case using Cons.IH [of "g(a \<mapsto> get_default (g a) [] @ [(b, c)])"] Cons.prems
    by (simp del: fun_upd_apply)
qed

lemma load_nodes_Inr:
  "load_nodes bi ns m = Inr m' \<Longrightarrow>
     dom m' = dom m \<union> {i. \<exists>n \<in> set ns. \<exists>xy. load_node bi n = Inr (i, xy)}"
proof (induction ns arbitrary: m)
  case Nil
  then show ?case by simp
next
  case (Cons n ns)
  then obtain i xy where n: "load_node bi n = Inr (i, xy)"
    by (cases "load_node bi n") auto
  from Cons.prems n have "load_nodes bi ns (m(i \<mapsto> xy)) = Inr m'" by simp
  from Cons.IH [of "m(i \<mapsto> xy)", OF this]
  have b: "dom m' = insert i (dom m) \<union> {j. \<exists>n \<in> set ns. \<exists>xy. load_node bi n = Inr (j, xy)}"
    by (simp del: fun_upd_apply)
  have "{j. \<exists>n' \<in> set (n # ns). \<exists>xy. load_node bi n' = Inr (j, xy)}
      = insert i {j. \<exists>n \<in> set ns. \<exists>xy. load_node bi n = Inr (j, xy)}"
    using n by auto
  then show ?case using b by auto
qed

lemma load_edges_Inr:
  "load_edges bi es g = Inr g' \<Longrightarrow>
     (\<forall>e \<in> set es. \<exists>a b c. load_edge bi e = Inr (a, b, c) \<and> (b, c) \<in> set (get_default (g' a) [])) \<and>
     (\<forall>a. set (get_default (g a) []) \<subseteq> set (get_default (g' a) []))"
proof (induction es arbitrary: g)
  case Nil
  then show ?case by auto
next
  case (Cons e es)
  from Cons.prems obtain a b c where abc: "load_edge bi e = Inr (a, b, c)"
    by (cases "load_edge bi e") auto
  let ?g = "g(a \<mapsto> get_default (g a) [] @ [(b, c)])"
  from Cons.prems abc have rec: "load_edges bi es ?g = Inr g'" by simp
  note ih = Cons.IH [of ?g, OF rec]
  have here: "(b, c) \<in> set (get_default (?g a) [])"
    by (simp add: get_default_def)
  have grow: "set (get_default (g x) []) \<subseteq> set (get_default (?g x) [])" for x
    by (auto simp: get_default_def)
  show ?case
  proof (intro conjI ballI allI)
    fix e' assume "e' \<in> set (e # es)"
    then consider "e' = e" | "e' \<in> set es" by auto
    then show "\<exists>a b c. load_edge bi e' = Inr (a, b, c) \<and> (b, c) \<in> set (get_default (g' a) [])"
    proof cases
      case 1
      then show ?thesis using abc here ih by blast
    next
      case 2
      then show ?thesis using ih by blast
    qed
  next
    fix x show "set (get_default (g x) []) \<subseteq> set (get_default (g' x) [])"
      using grow [of x] ih by blast
  qed
qed

text \<open>
  Claim C5, as amended. \<open>_load_map\<close> never looks an edge's endpoints up among the declared
  nodes, so loading never fails because an edge names an undeclared node: a parsed map
  whose node entries and edge entries are each well formed loads, whatever ids its edges
  name. In a successfully loaded graph the node table holds exactly the declared ids and
  every edge \<open>(from, to, cost)\<close> of the file is in the adjacency list of its \<open>from\<close> node,
  whether or not \<open>from\<close> and \<open>to\<close> are declared.
\<close>

theorem load_map_keeps_dangling_edges:
  assumes "source_entries data ''nodes'' = Inr ns" and "source_entries data ''edges'' = Inr es"
  shows "(list_all (node_entry_ok bi) ns \<and> list_all (edge_entry_ok bi) es
            \<longrightarrow> (\<exists>pl. load_map bi (Parsed data) = Inr pl)) \<and>
         (\<forall>pl. load_map bi (Parsed data) = Inr pl \<longrightarrow>
            dom (nodes pl) = {i. \<exists>n \<in> set ns. \<exists>xy. load_node bi n = Inr (i, xy)} \<and>
            (\<forall>e \<in> set es. \<exists>a b c. load_edge bi e = Inr (a, b, c) \<and>
               (b, c) \<in> set (get_default (graph pl a) [])))"
proof (intro conjI impI allI)
  assume ok: "list_all (node_entry_ok bi) ns \<and> list_all (edge_entry_ok bi) es"
  obtain nd where nd: "load_nodes bi ns Map.empty = Inr nd"
    using load_nodes_ok ok by blast
  obtain g where "load_edges bi es (\<lambda>nid. if nid \<in> dom nd then Some [] else None) = Inr g"
    using load_edges_ok ok by blast
  then show "\<exists>pl. load_map bi (Parsed data) = Inr pl"
    using assms nd by (simp add: load_map_def)
next
  fix pl assume pl: "load_map bi (Parsed data) = Inr pl"
  then obtain nd where nd: "load_nodes bi ns Map.empty = Inr nd"
    using assms by (cases "load_nodes bi ns Map.empty") (auto simp: load_map_def)
  then obtain g where g: "load_edges bi es (\<lambda>nid. if nid \<in> dom nd then Some [] else None) = Inr g"
    using assms pl
    by (cases "load_edges bi es (\<lambda>nid. if nid \<in> dom nd then Some [] else None)")
      (auto simp: load_map_def)
  have eq: "pl = \<lparr>nodes = nd, graph = g\<rparr>"
    using assms pl nd g by (simp add: load_map_def)
  show "dom (nodes pl) = {i. \<exists>n \<in> set ns. \<exists>xy. load_node bi n = Inr (i, xy)}"
    using load_nodes_Inr [OF nd] eq by simp
  show "\<forall>e \<in> set es. \<exists>a b c. load_edge bi e = Inr (a, b, c) \<and>
      (b, c) \<in> set (get_default (graph pl a) [])"
    using load_edges_Inr [OF g] eq by simp
qed

lemmas map_eval = load_map_def source_entries_def load_node_def load_edge_def get_default_def
  dangling_map_def parsers_def

text \<open>
  Claim C5 as stated fails: the map below loads, and the loaded graph has the edges
  \<open>1 \<rightarrow> 2\<close> and \<open>3 \<rightarrow> 1\<close> although 2 and 3 are not nodes.
\<close>

theorem load_map_dangling_counterexample:
  "isl (load_map parsers (Parsed dangling_map)) = False \<and>
   is_valid_node (projr (load_map parsers (Parsed dangling_map))) 1 = True \<and>
   is_valid_node (projr (load_map parsers (Parsed dangling_map))) 2 = False \<and>
   is_valid_node (projr (load_map parsers (Parsed dangling_map))) 3 = False \<and>
   graph (projr (load_map parsers (Parsed dangling_map))) 1 = Some [(2, 1)] \<and>
   graph (projr (load_map parsers (Parsed dangling_map))) 3 = Some [(1, 1)]"
  by (simp add: map_eval is_valid_node_def)

theorem load_map_keeps_dangling_edges_witness:
  "source_entries dangling_map ''nodes'' = Inr [JObj [(''id'', JInt 1), (''x'', JNum 0), (''y'', JNum 0)]] \<and>
   source_entries dangling_map ''edges''
     = Inr [JObj [(''from'', JInt 1), (''to'', JInt 2), (''cost'', JNum 1)],
            JObj [(''from'', JInt 3), (''to'', JInt 1)]] \<and>
   node_entry_ok parsers (JObj [(''id'', JInt 1), (''x'', JNum 0), (''y'', JNum 0)]) \<and>
   edge_entry_ok parsers (JObj [(''from'', JInt 1), (''to'', JInt 2), (''cost'', JNum 1)]) \<and>
   edge_entry_ok parsers (JObj [(''from'', JInt 3), (''to'', JInt 1)]) \<and>
   load_map parsers (Parsed dangling_map) = Inr (projr (load_map parsers (Parsed dangling_map))) \<and>
   dom (nodes (projr (load_map parsers (Parsed dangling_map)))) = {1} \<and>
   (2, 1) \<in> set (get_default (graph (projr (load_map parsers (Parsed dangling_map))) 1) [])"
proof -
  have n: "source_entries dangling_map ''nodes''
      = Inr [JObj [(''id'', JInt 1), (''x'', JNum 0), (''y'', JNum 0)]]"
    and e: "source_entries dangling_map ''edges''
      = Inr [JObj [(''from'', JInt 1), (''to'', JInt 2), (''cost'', JNum 1)],
             JObj [(''from'', JInt 3), (''to'', JInt 1)]]"
    by (simp_all add: source_entries_def dangling_map_def)
  have ok: "list_all (node_entry_ok parsers) [JObj [(''id'', JInt 1), (''x'', JNum 0), (''y'', JNum 0)]] \<and>
      list_all (edge_entry_ok parsers)
        [JObj [(''from'', JInt 1), (''to'', JInt 2), (''cost'', JNum 1)],
         JObj [(''from'', JInt 3), (''to'', JInt 1)]]"
    by (simp add: get_default_def)
  obtain pl where pl: "load_map parsers (Parsed dangling_map) = Inr pl"
    using load_map_keeps_dangling_edges [OF n e, of parsers] ok by blast
  have d: "dom (nodes (projr (load_map parsers (Parsed dangling_map)))) = {1}"
    and g: "(2, 1) \<in> set (get_default (graph (projr (load_map parsers (Parsed dangling_map))) 1) [])"
    by (simp_all add: map_eval)
  show ?thesis using n e ok pl d g by simp
qed

text \<open>
  The other ways a load can fail are in the model too: an entry that is not an object, a
  value \<open>int()\<close> or \<open>float()\<close> rejects, a missing top-level key, an unreadable or malformed
  file.
\<close>

lemma load_map_other_failures:
  "load_map parsers (Parsed (JObj [(''nodes'', JList [JObj [(''id'', JNull)]]), (''edges'', JList [])]))
     = Inl TypeError"
  "load_map parsers (Parsed (JObj [(''nodes'', JList [JObj [(''id'', JInt 1), (''x'', JInt (2 ^ 1024))]]),
                                   (''edges'', JList [])]))
     = Inl OverflowError"
  "load_map parsers (Parsed (JObj [(''nodes'', JList [JObj [(''id'', JStr ''n1'')]]), (''edges'', JList [])]))
     = Inl ValueError"
  "load_map parsers (Parsed (JObj [(''nodes'', JList [JObj [(''id'', JStr ''2'')]]), (''edges'', JList [])]))
     = Inr \<lparr>nodes = [2 \<mapsto> (0, 0)], graph = [2 \<mapsto> []]\<rparr>"
  "load_map parsers (Parsed (JObj [(''nodes'', JList [])])) = Inl KeyError"
  "load_map parsers (Parsed (JObj [(''nodes'', JList [JInt 1]), (''edges'', JList [])])) = Inl TypeError"
  "load_map parsers (Parsed (JList [])) = Inl TypeError"
  "load_map parsers Unreadable = Inl OSError"
  "load_map parsers Malformed = Inl JSONDecodeError"
  by (auto simp: map_eval fun_eq_iff)

section \<open>The shelf registry's claim\<close>

lemma map_of_dict_set: "map_of (dict_set d k v) = (map_of d)(k \<mapsto> v)"
  by (induction d k v rule: dict_set.induct) (auto simp: fun_eq_iff)

text \<open>
  Claim C8, as amended. \<open>mark_shelf_picked_up\<close> does not look at the shelf's status: for a
  known shelf it returns \<open>True\<close>, sets the status to \<open>CARRIED\<close> and \<open>carried_by\<close> to the robot,
  and leaves every other shelf as it was, also when the shelf is already carried. It
  returns \<open>False\<close>, changing nothing, only for an unknown shelf id.
\<close>

theorem mark_shelf_picked_up_unconditional:
  "(map_of (shelves sm) shelf_id = None \<longrightarrow> mark_shelf_picked_up sm shelf_id robot_id = (sm, False)) \<and>
   (\<forall>sh. map_of (shelves sm) shelf_id = Some sh \<longrightarrow>
      snd (mark_shelf_picked_up sm shelf_id robot_id) = True \<and>
      map_of (shelves (fst (mark_shelf_picked_up sm shelf_id robot_id))) shelf_id
        = Some (sh\<lparr>s_status := CARRIED, s_carried_by := Some robot_id\<rparr>) \<and>
      (\<forall>k. k \<noteq> shelf_id \<longrightarrow>
         map_of (shelves (fst (mark_shelf_picked_up sm shelf_id robot_id))) k = map_of (shelves sm) k))"
  by (simp add: mark_shelf_picked_up_def map_of_dict_set)

text \<open>
  Claim C8 as stated fails: shelf 9, carried by robot 1, is marked picked up by robot 2;
  the call returns \<open>True\<close> and the shelf is now carried by robot 2.
\<close>

theorem mark_shelf_picked_up_carried_counterexample:
  "map_option s_status (map_of (shelves carried_shelf_9) 9) = Some CARRIED \<and>
   map_option s_carried_by (map_of (shelves carried_shelf_9) 9) = Some (Some 1) \<and>
   snd (mark_shelf_picked_up carried_shelf_9 9 2) = True \<and>
   map_option s_carried_by (map_of (shelves (fst (mark_shelf_picked_up carried_shelf_9 9 2))) 9)
     = Some (Some 2)"
  by (simp add: carried_shelf_9_def mark_shelf_picked_up_def shelf_config_def)

theorem mark_shelf_picked_up_unconditional_witness:
  "map_option s_status (map_of (shelves shelf_config) 9) = Some IN_PLACE \<and>
   snd (mark_shelf_picked_up shelf_config 9 1) = True \<and>
   map_option s_status (map_of (shelves (fst (mark_shelf_picked_up shelf_config 9 1))) 9) = Some CARRIED \<and>
   map_option s_carried_by (map_of (shelves (fst (mark_shelf_picked_up shelf_config 9 1))) 9) = Some (Some 1) \<and>
   map_of (shelves shelf_config) 10 = None \<and>
   mark_shelf_picked_up shelf_config 10 1 = (shelf_config, False)"
  using mark_shelf_picked_up_unconditional [of shelf_config 9 1]
    mark_shelf_picked_up_unconditional [of shelf_config 10 1]
  by (simp add: shelf_config_def)

section \<open>The robot registry's claim\<close>

lemma fold_nearest:
  fixes key :: "'a \<Rightarrow> real"
  shows "fold (\<lambda>cand best. if key cand < key best then cand else best) rest r \<in> set (r # rest) \<and>
         (\<forall>x \<in> set (r # rest). key (fold (\<lambda>cand best. if key cand < key best then cand else best) rest r) \<le> key x)"
proof (induction rest arbitrary: r)
  case Nil
  then show ?case by simp
next
  case (Cons c rest)
  let ?r = "if key c < key r then c else r"
  have le: "key ?r \<le> key r" "key ?r \<le> key c" by auto
  let ?f = "\<lambda>cand best. if key cand < key best then cand else best"
  have eq: "fold ?f (c # rest) r = fold ?f rest ?r" by simp
  have mem: "fold ?f rest ?r \<in> set (?r # rest)"
    and min: "\<forall>x \<in> set (?r # rest). key (fold ?f rest ?r) \<le> key x"
    using Cons.IH [of ?r] by blast+
  have "fold ?f rest ?r \<in> set (r # c # rest)" using mem by (auto split: if_splits)
  moreover have "key (fold ?f rest ?r) \<le> key x" if "x \<in> set (r # c # rest)" for x
  proof -
    have "key (fold ?f rest ?r) \<le> key ?r" using min by simp
    moreover have "x \<in> set rest \<Longrightarrow> key (fold ?f rest ?r) \<le> key x" using min by simp
    ultimately show ?thesis using that le by (auto intro: order_trans)
  qed
  ultimately show ?case unfolding eq by blast
qed

text \<open>
  Claim C7, against the selection function modelled from the spec. \<open>get_available_robot\<close>
  returns none exactly when no robot is idle; a robot it returns is an idle robot of the
  registry whose current node is at least as near to the target, by the planner's
  heuristic, as that of every idle robot.
\<close>

theorem get_available_robot_nearest_idle:
  "(get_available_robot pl robots target_node = None
      \<longleftrightarrow> (\<forall>robot \<in> set (map snd robots). r_status robot \<noteq> IDLE)) \<and>
   (\<forall>robot. get_available_robot pl robots target_node = Some robot \<longrightarrow>
      robot \<in> set (map snd robots) \<and> r_status robot = IDLE \<and>
      (\<forall>other \<in> set (map snd robots). r_status other = IDLE \<longrightarrow>
         heuristic pl (r_current_node robot) target_node
           \<le> heuristic pl (r_current_node other) target_node))"
proof -
  let ?idle = "filter (\<lambda>robot. r_status robot = IDLE) (map snd robots)"
  let ?key = "\<lambda>robot. heuristic pl (r_current_node robot) target_node"
  show ?thesis
  proof (cases ?idle)
    case Nil
    then have "\<forall>robot \<in> set (map snd robots). r_status robot \<noteq> IDLE"
      by (simp add: filter_empty_conv)
    then show ?thesis using Nil by (simp add: get_available_robot_def)
  next
    case (Cons r rest)
    have set_idle: "set (r # rest) = {x \<in> set (map snd robots). r_status x = IDLE}"
      using Cons [symmetric] by simp
    have res: "get_available_robot pl robots target_node
        = Some (fold (\<lambda>cand best. if ?key cand < ?key best then cand else best) rest r)"
      using Cons by (simp add: get_available_robot_def)
    note fn = fold_nearest [of ?key rest r]
    have "r \<in> set ?idle" using Cons by simp
    then have ex: "\<not> (\<forall>robot \<in> set (map snd robots). r_status robot \<noteq> IDLE)"
      by (simp only: set_filter mem_Collect_eq) blast
    let ?best = "fold (\<lambda>cand best. if ?key cand < ?key best then cand else best) rest r"
    have mem: "?best \<in> set (map snd robots) \<and> r_status ?best = IDLE"
      using fn set_idle by blast
    have le: "\<forall>other \<in> set (map snd robots). r_status other = IDLE \<longrightarrow> ?key ?best \<le> ?key other"
      using fn set_idle by blast
    show ?thesis unfolding res using ex mem le by simp
  qed
qed

theorem get_available_robot_nearest_idle_witness:
  "map_option r_rid (get_available_robot warehouse fleet 9) = Some 3 \<and>
   map_option r_status (get_available_robot warehouse fleet 9) = Some IDLE \<and>
   heuristic warehouse 1 9 \<le> heuristic warehouse 37 9 \<and>
   get_available_robot warehouse (map (\<lambda>(k, r). (k, r\<lparr>r_status := BUSY\<rparr>)) fleet) 9 = None"
proof -
  have e1: "map_option r_rid (get_available_robot warehouse fleet 9) = Some 3"
    by (simp add: get_available_robot_def fleet_def warehouse_def heuristic_def get_default_def)
  then obtain robot where r: "get_available_robot warehouse fleet 9 = Some robot"
    by auto
  have idle: "r_status robot = IDLE"
    using get_available_robot_nearest_idle [of warehouse fleet 9] r by blast
  have e2: "\<forall>robot \<in> set (map snd (map (\<lambda>(k, r). (k, r\<lparr>r_status := BUSY\<rparr>)) fleet)). r_status robot \<noteq> IDLE"
    by (simp add: fleet_def)
  have none: "get_available_robot warehouse (map (\<lambda>(k, r). (k, r\<lparr>r_status := BUSY\<rparr>)) fleet) 9 = None"
    using e2
      get_available_robot_nearest_idle [of warehouse "map (\<lambda>(k, r). (k, r\<lparr>r_status := BUSY\<rparr>)) fleet" 9]
    by blast
  have e3: "heuristic warehouse 1 9 \<le> heuristic warehouse 37 9"
    by (simp add: warehouse_def heuristic_def get_default_def)
  show ?thesis using e1 r idle none e3 by simp
qed

text \<open>
  \<open>get_idle_robot\<close>, the only selection function of the registry at hand, returns the
  first idle robot of the registry whatever its distance; no caller uses it.
\<close>

lemma get_idle_robot_first: "map_option r_rid (get_idle_robot fleet) = Some 1"
  by (simp add: get_idle_robot_def fleet_def)

section \<open>The task store's claims\<close>

lemmas task_eval = create_batch_tasks_def create_task_def find_shelves_for_items_def dict_append_def
  get_default_def heuristic_def new_subtask_def put_task_def get_current_subtask_def
  advance_subtask_def start_task_def handle_subtask_complete_def handle_item_picked_def
  decide_shelf_action_def check_shelf_needed_elsewhere_def still_needed_def
  str_nat.simps Let_def remove_shelf_demand_def

lemma registered_eval:
  "map_option t_shelf_sequence (map_of (tasks registered) ''T1'') = Some [9]"
  "map_option t_items_picked (map_of (tasks registered) ''T1'') = Some []"
  "map_option (map st_type \<circ> t_subtasks) (map_of (tasks registered) ''T1'')
     = Some [GO_TO_SHELF, PICKUP_SHELF, DELIVER_TO_WS, WAIT_PICKING, RETURN_SHELF]"
  "map_option (map d_workstation_id) (map_of (shelf_demand registered) 9) = Some [50, 51, 52]"
  by (simp_all add: registered_def three_orders_def no_tasks_def shelf_config_def warehouse_def task_eval)


lemma at_station_eval:
  "map_option (map_option st_type \<circ> get_current_subtask) (map_of (tasks at_station) ''T1'')
     = Some (Some WAIT_PICKING)"
  "map_option (map d_task_id) (map_of (shelf_demand at_station) 9) = Some [''T1'', ''T2'', ''T3'']"
  by (simp_all add: at_station_def registered_def three_orders_def no_tasks_def shelf_config_def
      warehouse_def task_eval)

lemma dict_set_nonempty: "dict_set d k v \<noteq> []"
  by (induction d k v rule: dict_set.induct) (auto split: if_splits)

lemma find_shelves_loop_empty:
  "find_shelves_loop i2s items result = [] \<longleftrightarrow> result = [] \<and> (\<forall>i \<in> set items. i2s i = None)"
proof (induction items arbitrary: result)
  case Nil
  then show ?case by simp
next
  case (Cons item items)
  show ?case
  proof (cases "i2s item")
    case None
    then show ?thesis using Cons.IH [of result] by simp
  next
    case (Some shelf_id)
    have "dict_append result shelf_id item \<noteq> []"
      by (simp add: dict_append_def dict_set_nonempty split: option.splits)
    then show ?thesis using Some Cons.IH [of "dict_append result shelf_id item"] by simp
  qed
qed

lemma keys_dict_set: "fst ` set (dict_set d k v) = insert k (fst ` set d)"
  by (induction d k v rule: dict_set.induct) auto

lemma keys_dict_append: "fst ` set (dict_append d k x) = insert k (fst ` set d)"
  by (simp add: dict_append_def keys_dict_set split: option.splits)

lemma find_shelves_loop_keys:
  "fst ` set (find_shelves_loop i2s items result)
     = fst ` set result \<union> {shelf_id. \<exists>i \<in> set items. i2s i = Some shelf_id}"
proof (induction items arbitrary: result)
  case Nil
  then show ?case by simp
next
  case (Cons item items)
  show ?case
  proof (cases "i2s item")
    case None
    then show ?thesis using Cons.IH [of result] by auto
  next
    case (Some shelf_id)
    then show ?thesis using Cons.IH [of "dict_append result shelf_id item"]
      by (auto simp: keys_dict_append)
  qed
qed

lemma find_shelves_keys:
  "fst ` set (find_shelves_for_items sm items)
     = {shelf_id. \<exists>i \<in> set items. item_to_shelf sm i = Some shelf_id}"
  by (simp add: find_shelves_for_items_def find_shelves_loop_keys)

text \<open>
  Claim C4, as amended. \<open>create_task\<close> fails (returns \<open>None\<close>, leaving the task store and the
  demand table as they were) when none of the requested items maps to a shelf, and the
  batch goes on with the remaining requests. When at least one item maps to a shelf the
  task is created and registered with all its requested items; the items that map to no
  shelf are skipped, and the shelf sequence holds exactly the shelves of the others.
\<close>

theorem create_task_fails_only_without_any_shelf:
  "((\<forall>i \<in> set items. item_to_shelf sm i = None) \<longrightarrow>
      create_task pl sm tm task_id workstation_id items = (tm, None) \<and>
      create_batch_loop pl sm tm ((task_id, workstation_id, items) # rest) created
        = create_batch_loop pl sm tm rest created) \<and>
   ((\<exists>i \<in> set items. item_to_shelf sm i \<noteq> None) \<longrightarrow>
      (\<exists>task. snd (create_task pl sm tm task_id workstation_id items) = Some task \<and>
         map_of (tasks (fst (create_task pl sm tm task_id workstation_id items))) task_id = Some task \<and>
         t_items task = items \<and>
         set (t_shelf_sequence task) = {shelf_id. \<exists>i \<in> set items. item_to_shelf sm i = Some shelf_id}))"
proof (intro conjI impI)
  assume none: "\<forall>i \<in> set items. item_to_shelf sm i = None"
  then have "find_shelves_for_items sm items = []"
    by (simp add: find_shelves_for_items_def find_shelves_loop_empty)
  then show 1: "create_task pl sm tm task_id workstation_id items = (tm, None)"
    by (simp add: create_task_def)
  show "create_batch_loop pl sm tm ((task_id, workstation_id, items) # rest) created
        = create_batch_loop pl sm tm rest created"
    using 1 by simp
next
  assume "\<exists>i \<in> set items. item_to_shelf sm i \<noteq> None"
  then have ne: "find_shelves_for_items sm items \<noteq> []"
    by (simp add: find_shelves_for_items_def find_shelves_loop_empty)
  show "\<exists>task. snd (create_task pl sm tm task_id workstation_id items) = Some task \<and>
         map_of (tasks (fst (create_task pl sm tm task_id workstation_id items))) task_id = Some task \<and>
         t_items task = items \<and>
         set (t_shelf_sequence task) = {shelf_id. \<exists>i \<in> set items. item_to_shelf sm i = Some shelf_id}"
    using ne by (simp add: create_task_def Let_def map_of_dict_set find_shelves_keys)
qed


text \<open>
  Claim C4 as stated fails: the order for \<open>A\<close> and the unknown item \<open>Q\<close> is accepted and
  registered, with shelf 9 as its only stop.
\<close>

theorem create_task_unknown_item_counterexample:
  "item_to_shelf shelf_config ''Q'' = None \<and>
   map_option t_shelf_sequence
     (snd (create_task warehouse shelf_config no_tasks ''T1'' 50 [''A'', ''Q''])) = Some [9] \<and>
   map_option t_items
     (map_of (tasks (fst (create_task warehouse shelf_config no_tasks ''T1'' 50 [''A'', ''Q'']))) ''T1'')
     = Some [''A'', ''Q'']"
  by (simp add: no_tasks_def shelf_config_def warehouse_def task_eval)

theorem create_task_fails_only_without_any_shelf_witness:
  "item_to_shelf shelf_config ''Q'' = None \<and> item_to_shelf shelf_config ''R'' = None \<and>
   create_task warehouse shelf_config no_tasks ''T0'' 50 [''Q'', ''R''] = (no_tasks, None) \<and>
   create_batch_tasks warehouse shelf_config no_tasks ((''T0'', 50, [''Q'', ''R'']) # three_orders)
     = create_batch_tasks warehouse shelf_config no_tasks three_orders \<and>
   map_option t_task_id (snd (create_task warehouse shelf_config no_tasks ''T1'' 50 [''A'', ''Q'']))
     = Some ''T1''"
proof -
  have q: "\<forall>i \<in> set [''Q'', ''R'']. item_to_shelf shelf_config i = None"
    by (simp add: shelf_config_def)
  have a: "\<exists>i \<in> set [''A'', ''Q'']. item_to_shelf shelf_config i \<noteq> None"
    by (simp add: shelf_config_def)
  have t1: "map_option t_task_id (snd (create_task warehouse shelf_config no_tasks ''T1'' 50 [''A'', ''Q'']))
     = Some ''T1''"
    by (simp add: no_tasks_def shelf_config_def warehouse_def task_eval)
  show ?thesis
    using q a t1
      create_task_fails_only_without_any_shelf [of "[''Q'', ''R'']" shelf_config warehouse no_tasks
        "''T0''" 50 three_orders "[]"]
    by (simp add: create_batch_tasks_def)
qed

text \<open>
  Claim C3 on the code: \<open>T1\<close> has just been registered, its current sub-task is
  GO\_TO\_SHELF and nothing is picked. A \<open>pick_complete\<close> for item \<open>A\<close> is answered with the
  error "Not in WAIT\_PICKING state", and yet \<open>A\<close> is now among the task's picked items:
  the item is recorded before the state is checked.
\<close>

theorem handle_item_picked_records_before_state_check:
  "map_option (map_option st_type \<circ> get_current_subtask) (map_of (tasks registered) ''T1'')
     = Some (Some GO_TO_SHELF) \<and>
   map_option t_items_picked (map_of (tasks registered) ''T1'') = Some [] \<and>
   snd (handle_item_picked warehouse shelf_config registered ''T1'' ''A'')
     = Pick_Error ''Not in WAIT_PICKING state'' \<and>
   map_option t_items_picked
     (map_of (tasks (fst (handle_item_picked warehouse shelf_config registered ''T1'' ''A''))) ''T1'')
     = Some [''A'']"
  by (simp add: registered_def three_orders_def no_tasks_def shelf_config_def warehouse_def task_eval)

lemma check_demands_find:
  "check_demands ts current_ws ds = map_option d_workstation_id (find (still_needed ts current_ws) ds)"
  by (induction ds) simp_all

lemma advance_subtask_next:
  "snd (advance_subtask task) = Some next_st \<Longrightarrow> \<exists>task'. advance_subtask task = (task', Some next_st)"
  by (cases "advance_subtask task") simp

text \<open>
  Claim C6, as amended. \<open>_check_shelf_needed_elsewhere\<close> returns the workstation of the
  first demand, in the order the demands for the shelf were registered, that comes from
  another workstation and whose task is pending or in progress and still lacks an item of
  the demand; distances play no part. When it returns a workstation and the task has a next
  sub-task, \<open>_decide_shelf_action\<close> forwards the shelf to that workstation.
\<close>

theorem forwarding_takes_first_demand:
  "(check_shelf_needed_elsewhere tm shelf_id current_ws = Some ws \<longleftrightarrow>
      (\<exists>k < length (get_default (map_of (shelf_demand tm) shelf_id) []).
         still_needed (tasks tm) current_ws (get_default (map_of (shelf_demand tm) shelf_id) [] ! k) \<and>
         d_workstation_id (get_default (map_of (shelf_demand tm) shelf_id) [] ! k) = ws \<and>
         (\<forall>j < k. \<not> still_needed (tasks tm) current_ws
                      (get_default (map_of (shelf_demand tm) shelf_id) [] ! j)))) \<and>
   (check_shelf_needed_elsewhere tm shelf_id (t_workstation_id task) = Some ws \<longrightarrow>
    snd (advance_subtask task) = Some next_st \<longrightarrow>
      snd (decide_shelf_action pl sm tm task_id task shelf_id) = Shelf_Done_Forward ws shelf_id)"
proof (intro conjI impI)
  let ?ds = "get_default (map_of (shelf_demand tm) shelf_id) []"
  have "check_shelf_needed_elsewhere tm shelf_id current_ws = Some ws \<longleftrightarrow>
      (\<exists>d. find (still_needed (tasks tm) current_ws) ?ds = Some d \<and> d_workstation_id d = ws)"
    by (auto simp: check_shelf_needed_elsewhere_def check_demands_find)
  also have "\<dots> \<longleftrightarrow> (\<exists>k < length ?ds. still_needed (tasks tm) current_ws (?ds ! k) \<and>
         d_workstation_id (?ds ! k) = ws \<and> (\<forall>j < k. \<not> still_needed (tasks tm) current_ws (?ds ! j)))"
    unfolding find_Some_iff by blast
  finally show "check_shelf_needed_elsewhere tm shelf_id current_ws = Some ws \<longleftrightarrow>
      (\<exists>k < length ?ds. still_needed (tasks tm) current_ws (?ds ! k) \<and>
         d_workstation_id (?ds ! k) = ws \<and> (\<forall>j < k. \<not> still_needed (tasks tm) current_ws (?ds ! j)))" .
next
  assume c: "check_shelf_needed_elsewhere tm shelf_id (t_workstation_id task) = Some ws"
    and n: "snd (advance_subtask task) = Some next_st"
  obtain task' where "advance_subtask task = (task', Some next_st)"
    using advance_subtask_next [OF n] by blast
  then show "snd (decide_shelf_action pl sm tm task_id task shelf_id) = Shelf_Done_Forward ws shelf_id"
    using c by (simp add: decide_shelf_action_def)
qed

text \<open>
  Claim C6 as stated fails: when \<open>A\<close> is picked at station 50, \<open>T2\<close> (station 51) and \<open>T3\<close>
  (station 52) both still need shelf 9; station 52 is the nearer one, and the shelf is
  forwarded to station 51, whose order was registered first.
\<close>

theorem forwarding_not_nearest_counterexample:
  "snd (handle_item_picked warehouse shelf_config at_station ''T1'' ''A'') = Shelf_Done_Forward 51 9 \<and>
   map_option (map d_workstation_id) (map_of (shelf_demand at_station) 9) = Some [50, 51, 52] \<and>
   list_all (still_needed (tasks (fst (handle_item_picked warehouse shelf_config at_station ''T1'' ''A''))) 50)
     (tl (get_default (map_of (shelf_demand at_station) 9) [])) \<and>
   heuristic warehouse 50 52 < heuristic warehouse 50 51"
  by (simp add: at_station_def registered_def three_orders_def no_tasks_def shelf_config_def
      warehouse_def task_eval)

theorem forwarding_takes_first_demand_witness:
  "check_shelf_needed_elsewhere at_station 9 50 = Some 51 \<and>
   (1::nat) < length (get_default (map_of (shelf_demand at_station) 9) []) \<and>
   still_needed (tasks at_station) 50 (get_default (map_of (shelf_demand at_station) 9) [] ! 1) \<and>
   \<not> still_needed (tasks at_station) 50 (get_default (map_of (shelf_demand at_station) 9) [] ! 0) \<and>
   snd (decide_shelf_action warehouse shelf_config at_station ''T1''
          (the (map_of (tasks at_station) ''T1'')) 9) = Shelf_Done_Forward 51 9"
proof -
  have e: "(1::nat) < length (get_default (map_of (shelf_demand at_station) 9) [])"
    "still_needed (tasks at_station) 50 (get_default (map_of (shelf_demand at_station) 9) [] ! 1)"
    "d_workstation_id (get_default (map_of (shelf_demand at_station) 9) [] ! 1) = 51"
    "\<not> still_needed (tasks at_station) 50 (get_default (map_of (shelf_demand at_station) 9) [] ! 0)"
    "t_workstation_id (the (map_of (tasks at_station) ''T1'')) = 50"
    "map_option st_type (snd (advance_subtask (the (map_of (tasks at_station) ''T1'')))) = Some RETURN_SHELF"
    by (simp_all add: at_station_def registered_def three_orders_def no_tasks_def shelf_config_def
        warehouse_def task_eval)
  have lt: "\<forall>j < (1::nat). \<not> still_needed (tasks at_station) 50
      (get_default (map_of (shelf_demand at_station) 9) [] ! j)"
    using e(4) by simp
  obtain next_st where n: "snd (advance_subtask (the (map_of (tasks at_station) ''T1''))) = Some next_st"
    using e(6) by auto
  note t = forwarding_takes_first_demand [of at_station 9 50 51 "the (map_of (tasks at_station) ''T1'')"
      next_st warehouse shelf_config "''T1''"]
  have c: "check_shelf_needed_elsewhere at_station 9 50 = Some 51"
    using t e(1,2,3) lt by blast
  then show ?thesis using t e n by simp
qed

end
